theory Spec2Isabelle
  imports Main "HOL-Library.Word"
begin

section \<open>The share-chain store (Sharechain.ts)\<close>

text \<open>
  A share, reduced to the attributes the store reads: \<open>share.hash\<close>,
  \<open>share.info.absheight\<close>, \<open>share.info.data.previousShareHash\<close> and
  \<open>share.validity\<close>. Heights are JavaScript numbers holding integers.
\<close>

record share =
  hash :: string
  absheight :: int
  previousShareHash :: string
  validity :: bool

text \<open>The \<open>Gap\<close> type: \<open>{descendent, descendentHeight, length}\<close>.\<close>

record gap =
  descendent :: string
  descendentHeight :: int
  gap_length :: int

text \<open>The events of \<open>Sharechain.Events\<close> that the store triggers, with their payload.\<close>

datatype chain_event =
    NewestChanged share
  | DeadArrived share
  | CandidateArrived share
  | OrphansFound "share list"
  | GapsFound "gap list"

text \<open>What a call can raise.\<close>

datatype error = InvalidOperation | AssertionError | TypeError | RangeError

text \<open>
  The store: the two indexes, \<open>newest\<close> (an observable property, \<open>None\<close> while it has
  no value), \<open>oldest\<close> (\<open>None\<close> while undefined) and the log of the events triggered so far.
\<close>

record sharechain =
  hashIndexer :: "string \<rightharpoonup> int"
  absheightIndexer :: "int \<rightharpoonup> share list"
  newest :: "share option"
  oldest :: "share option"
  events :: "chain_event list"

definition BASE_CHAIN_LENGTH :: int where
  "BASE_CHAIN_LENGTH = 24 * 60 * 60 div 10"

definition MAX_CHAIN_LENGTH :: int where
  "MAX_CHAIN_LENGTH = BASE_CHAIN_LENGTH * 2"

text \<open>The store right after construction.\<close>

definition empty_chain :: sharechain where
  "empty_chain = \<lparr> hashIndexer = Map.empty, absheightIndexer = Map.empty,
     newest = None, oldest = None, events = [] \<rparr>"

text \<open>
  Modelled from the spec: \<open>trigger\<close> of the Event base class, which is not among the
  sources. Observers run synchronously before the triggering call goes on; the event is
  logged here.
\<close>

definition trigger :: "chain_event \<Rightarrow> sharechain \<Rightarrow> sharechain" where
  "trigger e c = c\<lparr> events := events c @ [e] \<rparr>"

text \<open>
  Modelled from the spec: \<open>set\<close> of the ObservableProperty class, which is not among the
  sources. In \<open>this.newest.set(share)\<close> the property takes the value and calls its change
  handler \<open>onNewestPropertyChanged\<close>, which triggers \<open>newestChanged\<close>.
\<close>

definition newest_set :: "share \<Rightarrow> sharechain \<Rightarrow> sharechain" where
  "newest_set s c = trigger (NewestChanged s) (c\<lparr> newest := Some s \<rparr>)"

text \<open>
  The two sequence operators of the kinq library that \<open>append\<close> calls, with the meaning
  of their LINQ namesakes. \<open>singleOrDefault\<close> gives the only element satisfying the
  predicate, the default (here \<open>None\<close> for \<open>null\<close>) when there is none, and raises when
  there are several. \<open>except\<close> gives, in their order, the elements of the first
  sequence that the comparer matches with no element of the second.
\<close>

definition singleOrDefault :: "('a \<Rightarrow> bool) \<Rightarrow> 'a list \<Rightarrow> error + 'a option" where
  "singleOrDefault p xs =
     (case filter p xs of
        [] \<Rightarrow> Inr None
      | [x] \<Rightarrow> Inr (Some x)
      | _ \<Rightarrow> Inl InvalidOperation)"

definition except_by :: "('a \<Rightarrow> 'a \<Rightarrow> bool) \<Rightarrow> 'a list \<Rightarrow> 'a list \<Rightarrow> 'a list" where
  "except_by eq xs ys = filter (\<lambda>x. \<not> list_ex (eq x) ys) xs"

definition same_hash :: "share \<Rightarrow> share \<Rightarrow> bool" where
  "same_hash i1 i2 = (hash i1 = hash i2)"

text \<open>\<open>has(hash)\<close>.\<close>

definition has :: "sharechain \<Rightarrow> string \<Rightarrow> bool" where
  "has c h = (hashIndexer c h \<noteq> None)"

text \<open>
  \<open>get(id)\<close>, by hash or by height; \<open>None\<close> is the \<open>null\<close> it returns.
\<close>

datatype ident = ByHash string | ByHeight int

definition get :: "sharechain \<Rightarrow> ident \<Rightarrow> share option" where
  "get c ident =
     (case (case ident of
              ByHash h \<Rightarrow> hashIndexer c h
            | ByHeight n \<Rightarrow> Some n) of
        None \<Rightarrow> None
      | Some height \<Rightarrow>
          (case absheightIndexer c height of
             None \<Rightarrow> None
           | Some [] \<Rightarrow> None
           | Some (s # _) \<Rightarrow> Some s))"

text \<open>
  \<open>cleanDeprecations()\<close>: once the span from \<open>oldest\<close> to \<open>newest\<close> reaches
  \<open>MAX_CHAIN_LENGTH\<close>, the list at the height of \<open>oldest\<close> is deleted, and the hash of each
  of its shares with it. \<open>oldest\<close> itself is not assigned.
\<close>

definition cleanDeprecations :: "sharechain \<Rightarrow> sharechain" where
  "cleanDeprecations c =
     (case (newest c, oldest c) of
        (Some n, Some ol) \<Rightarrow>
          if absheight n - absheight ol < MAX_CHAIN_LENGTH then c
          else (case absheightIndexer c (absheight ol) of
                  None \<Rightarrow> c
                | Some [] \<Rightarrow> c
                | Some deprecatedShares \<Rightarrow>
                    c\<lparr> absheightIndexer := (absheightIndexer c)(absheight ol := None),
                       hashIndexer := (\<lambda>h. if h \<in> hash ` set deprecatedShares then None
                                           else hashIndexer c h) \<rparr>)
      | _ \<Rightarrow> c)"

text \<open>
  \<open>append(share)\<close>. The result is what the call returns (\<open>Inr (Some b)\<close> for a boolean,
  \<open>Inr None\<close> for the bare \<open>return\<close> that gives \<open>undefined\<close>, \<open>Inl\<close> when it raises),
  paired with the store it leaves.
\<close>

definition one_gap :: "share \<Rightarrow> chain_event" where
  "one_gap s = GapsFound [\<lparr> descendent = hash s, descendentHeight = absheight s, gap_length = 1 \<rparr>]"

definition append_newer :: "sharechain \<Rightarrow> share \<Rightarrow> (error + bool option) \<times> sharechain" where
  "append_newer c0 s =
     (let c = cleanDeprecations (newest_set s c0) in
      case absheightIndexer c (absheight s - 1) of
        None \<Rightarrow> (Inr (Some True), trigger (one_gap s) c)
      | Some previousShares \<Rightarrow>
          if length previousShares < 2 then (Inr (Some True), c)
          else (case singleOrDefault (\<lambda>t. hash t = previousShareHash s) previousShares of
                  Inl e \<Rightarrow> (Inl e, c)
                | Inr (Some verified) \<Rightarrow>
                    (let orphans = except_by same_hash previousShares [verified];
                         c1 = (if length orphans > 0 then trigger (OrphansFound orphans) c else c)
                     in (Inr (Some True),
                         c1\<lparr> absheightIndexer :=
                               (absheightIndexer c1)(absheight s - 1 \<mapsto> verified # orphans) \<rparr>))
                | Inr None \<Rightarrow> (Inr (Some True), trigger (one_gap s) c)))"

definition append_older :: "sharechain \<Rightarrow> share \<Rightarrow> share list \<Rightarrow> (error + bool option) \<times> sharechain" where
  "append_older c s shares =
     (if length shares < 2 then (Inr (Some True), c)
      else (case absheightIndexer c (absheight s + 1) of
              None \<Rightarrow> (Inr None, c)
            | Some [] \<Rightarrow> (Inr None, c)
            | Some nextShares \<Rightarrow>
                if \<not> list_ex (\<lambda>t. previousShareHash t = hash s) nextShares
                then (Inr (Some False), trigger (DeadArrived s) c)
                else (let orphans = except_by same_hash shares [s];
                          c1 = (if length orphans > 0 then trigger (OrphansFound orphans) c else c)
                      in (Inr (Some False),
                          c1\<lparr> absheightIndexer :=
                                (absheightIndexer c1)(absheight s \<mapsto> s # orphans) \<rparr>))))"

definition append_share :: "sharechain \<Rightarrow> share \<Rightarrow> (error + bool option) \<times> sharechain" where
  "append_share c0 s =
     (if \<not> validity s then (Inr (Some False), c0)
      else
        let c1 = (case absheightIndexer c0 (absheight s) of
                    None \<Rightarrow> c0\<lparr> absheightIndexer := (absheightIndexer c0)(absheight s \<mapsto> []) \<rparr>
                  | Some _ \<Rightarrow> c0);
            shares0 = (case absheightIndexer c0 (absheight s) of None \<Rightarrow> [] | Some l \<Rightarrow> l)
        in if list_ex (\<lambda>t. hash t = hash s) shares0 then (Inr (Some False), c1)
           else
             let shares = shares0 @ [s];
                 c2 = c1\<lparr> absheightIndexer := (absheightIndexer c1)(absheight s \<mapsto> shares),
                          hashIndexer := (hashIndexer c1)(hash s \<mapsto> absheight s) \<rparr>;
                 c3 = (case oldest c2 of
                         Some ol \<Rightarrow> if absheight s < absheight ol then c2\<lparr> oldest := Some s \<rparr> else c2
                       | None \<Rightarrow> c2)
             in case newest c3 of
                  Some n \<Rightarrow>
                    if absheight s > absheight n then append_newer c3 s
                    else if absheight s = absheight n
                      then (Inr (Some True), trigger (CandidateArrived s) c3)
                    else append_older c3 s shares
                | None \<Rightarrow>
                    (let c4 = newest_set s c3;
                         c5 = (case oldest c4 of None \<Rightarrow> c4\<lparr> oldest := Some s \<rparr> | Some _ \<Rightarrow> c4)
                     in (Inr (Some True), c5)))"

text \<open>
  A sequence of \<open>append\<close> calls, whatever each returns; \<open>add(shares)\<close> is such a sequence
  while no call raises.
\<close>

definition appends :: "sharechain \<Rightarrow> share list \<Rightarrow> sharechain" where
  "appends c ss = foldl (\<lambda>c s. snd (append_share c s)) c ss"

text \<open>
  \<open>subchain(startHash, length, direction)\<close>: the shares the generator yields when it is
  run to its end. The guard \<open>if (!absheight) return\<close> holds for an unknown hash
  (\<open>undefined\<close>) and for the height \<open>0\<close>.
\<close>

datatype direction = Backward | Forward

fun subchain_walk :: "sharechain \<Rightarrow> int \<Rightarrow> int \<Rightarrow> nat \<Rightarrow> share list" where
  "subchain_walk c a step 0 = []"
| "subchain_walk c a step (Suc n) =
     (case absheightIndexer c a of
        None \<Rightarrow> []
      | Some [] \<Rightarrow> []
      | Some (s # _) \<Rightarrow> s # subchain_walk c (absheight s + step) step n)"

definition subchain :: "sharechain \<Rightarrow> string \<Rightarrow> nat \<Rightarrow> direction \<Rightarrow> share list" where
  "subchain c startHash len dir =
     (case hashIndexer c startHash of
        None \<Rightarrow> []
      | Some a \<Rightarrow>
          if a = 0 then []
          else subchain_walk c a (case dir of Backward \<Rightarrow> - 1 | Forward \<Rightarrow> 1) len)"

text \<open>
  What every store reached by calls of \<open>append\<close> from the empty store satisfies: the hashes
  of a height list are pairwise distinct, each of its shares is valid and has that height,
  and a hash in \<open>hashIndexer\<close> belongs to a share in the list at the height it maps to.
\<close>

definition chain_inv :: "sharechain \<Rightarrow> bool" where
  "chain_inv c \<longleftrightarrow>
     (\<forall>k l. absheightIndexer c k = Some l \<longrightarrow>
        distinct (map hash l) \<and> (\<forall>s \<in> set l. validity s \<and> absheight s = k)) \<and>
     (\<forall>h k. hashIndexer c h = Some k \<longrightarrow>
        (\<exists>l. absheightIndexer c k = Some l \<and> h \<in> hash ` set l))"

text \<open>Shares and stores that the concrete cases below run \<open>append\<close> on.\<close>

definition valid_share :: "string \<Rightarrow> int \<Rightarrow> string \<Rightarrow> share" where
  "valid_share h a p = \<lparr> hash = h, absheight = a, previousShareHash = p, validity = True \<rparr>"

definition invalid_share :: "string \<Rightarrow> int \<Rightarrow> string \<Rightarrow> share" where
  "invalid_share h a p = \<lparr> hash = h, absheight = a, previousShareHash = p, validity = False \<rparr>"

definition dead_store :: sharechain where
  "dead_store = appends empty_chain
     [valid_share ''n'' 200 ''m'', valid_share ''a'' 100 ''z'', valid_share ''b'' 101 ''a'']"

definition window_store :: sharechain where
  "window_store = appends empty_chain
     [valid_share ''a'' 1 ''z'', valid_share ''b'' 2 ''a'',
      valid_share ''c'' 17281 ''y'', valid_share ''d'' 17283 ''x'']"

definition zero_store :: sharechain where
  "zero_store = appends empty_chain [valid_share ''a'' 0 ''z'']"

text \<open>
  The walk that \<open>subchain\<close> is described by: the first share of the list at each height,
  from height \<open>k\<close> in steps of \<open>step\<close>, until \<open>n\<close> shares are out or a height has none.
\<close>

fun index0_walk :: "sharechain \<Rightarrow> int \<Rightarrow> int \<Rightarrow> nat \<Rightarrow> share list" where
  "index0_walk c k step 0 = []"
| "index0_walk c k step (Suc n) =
     (case absheightIndexer c k of
        Some (x # _) \<Rightarrow> x # index0_walk c (k + step) step n
      | _ \<Rightarrow> [])"

section \<open>The peer connection (Node.ts)\<close>

text \<open>The events of \<open>Node.Events\<close> that the modelled methods trigger.\<close>

datatype node_event =
    BadPeer string
  | UnknownCommand string
  | End
  | HaveTx "string list"
  | LosingTx "string list"

text \<open>
  The socket of a connection, as far as \<open>close\<close> and \<open>initSocket\<close> act on it: how often
  \<open>end()\<close> was called, and the socket events that have a listener attached.
\<close>

record net_socket =
  end_calls :: nat
  listeners :: "string list"

text \<open>
  A connection: its socket (\<open>None\<close> while no socket is installed), the set
  \<open>remoteTxHashs\<close> and the log of the events triggered so far. A JavaScript \<open>Set\<close>
  iterates in insertion order; it is the list of its elements in that order, without
  repetition.
\<close>

record node =
  socket :: "net_socket option"
  remoteTxHashs :: "string list"
  node_events :: "node_event list"

definition set_add :: "'a \<Rightarrow> 'a list \<Rightarrow> 'a list" where
  "set_add x xs = (if x \<in> set xs then xs else xs @ [x])"

definition set_delete :: "'a \<Rightarrow> 'a list \<Rightarrow> 'a list" where
  "set_delete x xs = removeAll x xs"

text \<open>\<open>this.trigger(event, this, ...)\<close> of a connection, logged as for the store.\<close>

definition node_trigger :: "node_event \<Rightarrow> node \<Rightarrow> node" where
  "node_trigger e n = n\<lparr> node_events := node_events n @ [e] \<rparr>"

text \<open>A connection constructed without a peer address: no socket yet.\<close>

definition new_node :: node where
  "new_node = \<lparr> socket = None, remoteTxHashs = [], node_events = [] \<rparr>"

text \<open>
  \<open>initSocket(socket)\<close> arms the timeout and attaches the \<open>end\<close> and \<open>error\<close>
  listeners; \<open>close()\<close> does nothing without a socket, and otherwise ends the socket, removes
  all its listeners and triggers \<open>end\<close>; \<open>installSocket(socket)\<close> closes, then initialises.
\<close>

definition initSocket :: "net_socket \<Rightarrow> node \<Rightarrow> node" where
  "initSocket s n =
     n\<lparr> socket := Some (s\<lparr> listeners := listeners s @ [''timeout'', ''end'', ''error''] \<rparr>) \<rparr>"

definition close :: "node \<Rightarrow> node" where
  "close n =
     (case socket n of
        None \<Rightarrow> n
      | Some s \<Rightarrow>
          node_trigger End
            (n\<lparr> socket := Some (s\<lparr> end_calls := end_calls s + 1, listeners := [] \<rparr>) \<rparr>))"

definition installSocket :: "net_socket \<Rightarrow> node \<Rightarrow> node" where
  "installSocket s n = initSocket s (close n)"

text \<open>A fresh socket, and a connection with it installed.\<close>

definition fresh_socket :: net_socket where
  "fresh_socket = \<lparr> end_calls = 0, listeners = [] \<rparr>"

definition connected_node :: node where
  "connected_node = installSocket fresh_socket new_node"

text \<open>
  \<open>handleHave_tx(payload)\<close>, on the hashes \<open>Have_tx.fromBuffer(payload).txHashes\<close>: the
  event, then the loop that deletes the first key while the set has more than 10, then the
  insertion of every hash.
\<close>

function evict_oldest :: "string list \<Rightarrow> string list" where
  "evict_oldest xs =
     (if length xs > 10
      then (case xs of [] \<Rightarrow> [] | v # _ \<Rightarrow> evict_oldest (set_delete v xs))
      else xs)"
  by pat_completeness auto
termination
proof (relation "measure length")
  show "wf (measure length)" by simp
next
  fix xs :: "string list" and v vs
  assume "xs = v # vs"
  then show "(set_delete v xs, xs) \<in> measure length"
    by (simp add: set_delete_def le_imp_less_Suc length_removeAll_less_eq)
qed

declare evict_oldest.simps [simp del]

definition handleHave_tx :: "string list \<Rightarrow> node \<Rightarrow> node" where
  "handleHave_tx txHashes n =
     (let n1 = node_trigger (HaveTx txHashes) n;
          n2 = n1\<lparr> remoteTxHashs := evict_oldest (remoteTxHashs n1) \<rparr>
      in n2\<lparr> remoteTxHashs := foldl (\<lambda>s h. set_add h s) (remoteTxHashs n2) txHashes \<rparr>)"

definition handleLosing_tx :: "string list \<Rightarrow> node \<Rightarrow> node" where
  "handleLosing_tx txHashes n =
     (let n1 = node_trigger (LosingTx txHashes) n
      in n1\<lparr> remoteTxHashs := foldl (\<lambda>s h. set_delete h s) (remoteTxHashs n1) txHashes \<rparr>)"

text \<open>A sequence of \<open>have_tx\<close> messages handled on one connection, first message first.\<close>

definition handleHave_tx_all :: "string list list \<Rightarrow> node \<Rightarrow> node" where
  "handleHave_tx_all msgs n = foldl (\<lambda>n txHashes. handleHave_tx txHashes n) n msgs"

text \<open>
  Eleven transaction hashes, for the concrete cases below, and the eleven messages that
  carry one of them each.
\<close>

definition eleven_hashes :: "string list" where
  "eleven_hashes = [''t01'', ''t02'', ''t03'', ''t04'', ''t05'', ''t06'',
     ''t07'', ''t08'', ''t09'', ''t10'', ''t11'']"

definition eleven_messages :: "string list list" where
  "eleven_messages = [[''t01''], [''t02''], [''t03''], [''t04''], [''t05''], [''t06''],
     [''t07''], [''t08''], [''t09''], [''t10''], [''t11'']]"

subsection \<open>Receiving a frame\<close>

type_synonym byte = "8 word"
type_synonym buffer = "byte list"

text \<open>
  The outcome of an asynchronous call: resolved with a value, rejected with what was
  raised, or never settled because the data it waits for does not come.
\<close>

datatype 'a promise = Resolved 'a | Rejected error | Pending

text \<open>\<open>buf.readUInt32LE(offset)\<close>; it raises when the four bytes are not all there.\<close>

definition readUInt32LE :: "buffer \<Rightarrow> nat \<Rightarrow> error + nat" where
  "readUInt32LE buf off =
     (if off + 4 \<le> length buf
      then Inr (unat (buf ! off) + 256 * unat (buf ! (off + 1))
                + 65536 * unat (buf ! (off + 2)) + 16777216 * unat (buf ! (off + 3)))
      else Inl RangeError)"

text \<open>
  \<open>readFlowingBytesAsync(stream, amount, preRead)\<close>. \<open>chunks\<close> are the \<open>data\<close> events the
  socket delivers from now on. The promise resolves with the first \<open>amount\<close> bytes, what was
  read beyond them (\<open>null\<close> when nothing) and the chunks not yet consumed. Without a
  socket, waiting for data raises inside the promise.
\<close>

fun readData ::
  "net_socket option \<Rightarrow> nat \<Rightarrow> buffer \<Rightarrow> buffer list
     \<Rightarrow> (buffer \<times> buffer option \<times> buffer list) promise" where
  "readData stream amount buff [] =
     (if length buff \<ge> amount
      then Resolved (take amount buff,
                     if length buff > amount then Some (drop amount buff) else None, [])
      else (case stream of None \<Rightarrow> Rejected TypeError | Some _ \<Rightarrow> Pending))"
| "readData stream amount buff (d # ds) =
     (if length buff \<ge> amount
      then Resolved (take amount buff,
                     if length buff > amount then Some (drop amount buff) else None, d # ds)
      else (case stream of
              None \<Rightarrow> Rejected TypeError
            | Some _ \<Rightarrow> readData stream amount (buff @ d) ds))"

definition readFlowingBytesAsync ::
  "net_socket option \<Rightarrow> nat \<Rightarrow> buffer option \<Rightarrow> buffer list
     \<Rightarrow> (buffer \<times> buffer option \<times> buffer list) promise" where
  "readFlowingBytesAsync stream amount preRead chunks =
     readData stream amount (case preRead of None \<Rightarrow> [] | Some b \<Rightarrow> b) chunks"

text \<open>
  Modelled from the spec: \<open>PROTOCOL_HEAD_LENGTH\<close> of the Message module, which is not among
  the sources; the header is 28 bytes.
\<close>

definition PROTOCOL_HEAD_LENGTH :: nat where
  "PROTOCOL_HEAD_LENGTH = 28"

text \<open>
  \<open>data.slice(8, 20).toString().replace(/\0+$/, '')\<close>: the command bytes as characters,
  without the trailing NULs. This is the text of a command of ASCII bytes, as the thirteen
  commands are; the source decodes UTF-8, so it gives other text for bytes from \<open>0x80\<close> on.
\<close>

definition decode_command :: "buffer \<Rightarrow> string" where
  "decode_command bs =
     rev (dropWhile (\<lambda>c. c = CHR 0x00) (rev (map (\<lambda>b. char_of (unat b)) bs)))"

text \<open>
  \<open>beginReceivingMessagesAsync(preBuffer)\<close>, one frame. The network magic
  \<open>Message.magic\<close>, the digest \<open>utils.sha256d\<close> and the table \<open>msgHandlers\<close> (whose handlers
  decode with codecs that are not among the sources) are parameters. A resolved result
  carries what the call hands to its next run on \<open>process.nextTick\<close>. After a bad magic
  number or a bad checksum the method triggers \<open>badPeer\<close>, closes and runs
  \<open>assert.ok(false)\<close>, which raises.
\<close>

type_synonym handler = "buffer \<Rightarrow> node \<Rightarrow> (error + unit) \<times> node"

definition beginReceivingMessagesAsync ::
  "buffer \<Rightarrow> (buffer \<Rightarrow> buffer) \<Rightarrow> (string \<rightharpoonup> handler) \<Rightarrow> node \<Rightarrow> buffer option \<Rightarrow> buffer list
     \<Rightarrow> (buffer option \<times> buffer list) promise \<times> node" where
  "beginReceivingMessagesAsync magic sha256d msgHandlers n preBuffer chunks =
     (case readFlowingBytesAsync (socket n) PROTOCOL_HEAD_LENGTH preBuffer chunks of
        Pending \<Rightarrow> (Pending, n)
      | Rejected e \<Rightarrow> (Rejected e, n)
      | Resolved (data, lopped, chunks1) \<Rightarrow>
          if take 8 data \<noteq> magic
          then (Rejected AssertionError, close (node_trigger (BadPeer ''Bad magic number'') n))
          else
            let command = decode_command (take 12 (drop 8 data)) in
            case readUInt32LE data 20 of
              Inl e \<Rightarrow> (Rejected e, n)
            | Inr len \<Rightarrow>
            (case readUInt32LE data 24 of
              Inl e \<Rightarrow> (Rejected e, n)
            | Inr checksum \<Rightarrow>
            (case readFlowingBytesAsync (socket n) len lopped chunks1 of
              Pending \<Rightarrow> (Pending, n)
            | Rejected e \<Rightarrow> (Rejected e, n)
            | Resolved (payload, remain, chunks2) \<Rightarrow>
                (case readUInt32LE (sha256d payload) 0 of
                   Inl e \<Rightarrow> (Rejected e, n)
                 | Inr digest32 \<Rightarrow>
                     if digest32 \<noteq> checksum
                     then (Rejected AssertionError,
                           close (node_trigger (BadPeer ''Bad checksum'') n))
                     else (case msgHandlers command of
                             Some handle \<Rightarrow>
                               (case handle payload n of
                                  (Inl e, n') \<Rightarrow> (Rejected e, n')
                                | (Inr _, n') \<Rightarrow> (Resolved (remain, chunks2), n'))
                           | None \<Rightarrow>
                               (Resolved (remain, chunks2),
                                node_trigger (UnknownCommand command) n))))))"

text \<open>
  A frame for the concrete case below: a magic number, the command \<open>ping\<close>, length 0 and
  a stored checksum of 0. The double SHA-256 of the empty payload is
  \<open>5df6e0e2761359d3...\<close>, so the checksum the frame should carry is \<open>0xe2e0f65d\<close>;
  \<open>sha256d_empty_payload\<close> stands for the digest on this frame, whose payload is empty.
\<close>

definition test_magic :: buffer where
  "test_magic = [0x24, 0x72, 0xef, 0x18, 0x1e, 0xfc, 0xd3, 0x7b]"

definition sha256d_of_empty :: buffer where
  "sha256d_of_empty =
     [0x5d, 0xf6, 0xe0, 0xe2, 0x76, 0x13, 0x59, 0xd3, 0x0a, 0x82, 0x75, 0x05, 0x8e, 0x29, 0x9f, 0xcc,
      0x03, 0x81, 0x53, 0x45, 0x45, 0xf5, 0x5c, 0xf4, 0x3e, 0x41, 0x98, 0x3f, 0x5d, 0x4c, 0x94, 0x56]"

definition sha256d_empty_payload :: "buffer \<Rightarrow> buffer" where
  "sha256d_empty_payload payload = sha256d_of_empty"

definition bad_checksum_frame :: buffer where
  "bad_checksum_frame =
     test_magic @ [0x70, 0x69, 0x6e, 0x67, 0, 0, 0, 0, 0, 0, 0, 0] @ [0, 0, 0, 0] @ [0, 0, 0, 0]"

section \<open>The peer coordinator (Peer.ts)\<close>

text \<open>
  Rendering and reading of numbers. \<open>string_of_number\<close> is the text a template literal
  gives for an integer below \<open>10^21\<close> in size, as heights and their differences are (from
  there on the source writes an exponent); \<open>hex_of_bytes\<close> is
  \<open>Buffer.toString('hex')\<close>, two lower-case digits for each byte.
\<close>

definition digit_char :: "nat \<Rightarrow> char" where
  "digit_char d = ''0123456789abcdef'' ! d"

function string_of_nat :: "nat \<Rightarrow> string" where
  "string_of_nat n =
     (if n < 10 then [digit_char n] else string_of_nat (n div 10) @ [digit_char (n mod 10)])"
  by pat_completeness auto
termination
  by (relation "measure id") simp_all

declare string_of_nat.simps [simp del]

definition string_of_number :: "int \<Rightarrow> string" where
  "string_of_number i =
     (if i < 0 then CHR ''-'' # string_of_nat (nat (- i)) else string_of_nat (nat i))"

definition hex_of_bytes :: "buffer \<Rightarrow> string" where
  "hex_of_bytes bs =
     concat (map (\<lambda>b. [digit_char (unat b div 16), digit_char (unat b mod 16)]) bs)"

text \<open>
  The big integers of the bignum package, as natural numbers. \<open>new Bignum(str, 16)\<close> reads
  hexadecimal digits up to the first character that is none; \<open>toString(16)\<close> writes the
  bytes of the number from the first non-zero byte on, two lower-case digits each, and
  \<open>0\<close> for zero. Neither pads to a width.
\<close>

definition hex_value :: "char \<Rightarrow> nat option" where
  "hex_value c =
     (let k = (of_char c :: nat) in
      if 48 \<le> k \<and> k \<le> 57 then Some (k - 48)
      else if 97 \<le> k \<and> k \<le> 102 then Some (k - 87)
      else if 65 \<le> k \<and> k \<le> 70 then Some (k - 55)
      else None)"

fun hex_acc :: "nat \<Rightarrow> string \<Rightarrow> nat" where
  "hex_acc a [] = a"
| "hex_acc a (c # cs) = (case hex_value c of None \<Rightarrow> a | Some d \<Rightarrow> hex_acc (16 * a + d) cs)"

definition bignum_of_hex :: "string \<Rightarrow> nat" where
  "bignum_of_hex s = hex_acc 0 s"

function bytes_of_bignum :: "nat \<Rightarrow> buffer" where
  "bytes_of_bignum n =
     (if n = 0 then [] else bytes_of_bignum (n div 256) @ [of_nat (n mod 256)])"
  by pat_completeness auto
termination
  by (relation "measure id") simp_all

declare bytes_of_bignum.simps [simp del]

definition bignum_toString16 :: "nat \<Rightarrow> string" where
  "bignum_toString16 n = (if n = 0 then ''0'' else hex_of_bytes (bytes_of_bignum n))"

text \<open>
  What the coordinator knows of a connected peer, the \<open>sharereq\<close> and \<open>sharereply\<close>
  messages, and the coordinator: the set \<open>pendingShareRequests\<close>, the peers in the order of
  the \<open>peers\<close> map, and the log of the share requests sent, each with the tag of the peer it
  went to.
\<close>

record peer_node =
  tag :: string
  isJs2PoolPeer :: bool

record sharereq =
  req_id :: nat
  hashes :: "string list"
  parents :: int

record sharereply =
  reply_id :: nat
  result :: nat
  reply_shares :: "share list"

record peer =
  pendingShareRequests :: "string list"
  peers :: "peer_node list"
  sent :: "(string \<times> sharereq) list"

text \<open>
  \<open>handleGapsFound(sender, gaps)\<close>. The digest \<open>Utils.sha256\<close> and \<open>MathEx.shuffle\<close> are
  parameters. \<open>orderByDescending(p => p.isJs2PoolPeer)\<close> of kinq puts the js2pool peers
  first and gives the peers of each kind in the reverse of their order in the map.
\<close>

definition requestId_of :: "(string \<Rightarrow> buffer) \<Rightarrow> gap \<Rightarrow> string" where
  "requestId_of sha256 g =
     hex_of_bytes (sha256 (descendent g @ ''-'' @ string_of_number (gap_length g)))"

definition request_gap :: "(string \<Rightarrow> buffer) \<Rightarrow> peer_node list \<Rightarrow> peer \<Rightarrow> gap \<Rightarrow> peer" where
  "request_gap sha256 ordered p g =
     (let requestId = requestId_of sha256 g in
      if requestId \<in> set (pendingShareRequests p) then p
      else p\<lparr> sent := sent p @
                 map (\<lambda>node. (tag node,
                        \<lparr> req_id = bignum_of_hex requestId,
                          hashes = [descendent g],
                          parents = min (gap_length g) (if isJs2PoolPeer node then 250 else 79) \<rparr>))
                     (take 8 ordered),
               pendingShareRequests := set_add requestId (pendingShareRequests p) \<rparr>)"

definition handleGapsFound ::
  "(string \<Rightarrow> buffer) \<Rightarrow> (gap list \<Rightarrow> gap list) \<Rightarrow> peer \<Rightarrow> gap list \<Rightarrow> peer" where
  "handleGapsFound sha256 shuffle p gaps =
     (if peers p = [] then p
      else if gaps = [] then p
      else
        let ordered = rev (filter isJs2PoolPeer (peers p))
                        @ rev (filter (\<lambda>n. \<not> isJs2PoolPeer n) (peers p));
            randomGaps = (if length gaps > 1 then shuffle gaps else gaps)
        in foldl (request_gap sha256 ordered) p randomGaps)"

text \<open>
  \<open>handleSharereply(sender, reply)\<close>. The Sharechain class that Peer.ts imports (the one
  with \<open>fix\<close>) and the share persister are not among the sources: the chain is a value of
  any type, and \<open>has\<close>, \<open>fix\<close>, \<open>add\<close> and \<open>checkGaps\<close> are parameters. A call of one of
  them gives what it raised, if it did, the chain it leaves, and the gap lists it handed
  to the \<open>gapsFound\<close> listener, which is \<open>handleGapsFound\<close>, while it ran. The
  \<open>checkGaps\<close> and \<open>verify\<close> that the method defers to \<open>process.nextTick\<close> run after it
  has returned.
\<close>

type_synonym 'c chain_call = "'c \<Rightarrow> error option \<times> 'c \<times> gap list list"

record 'c chain_ops =
  chain_has :: "'c \<Rightarrow> string \<Rightarrow> bool"
  chain_fix :: "'c chain_call"
  chain_add :: "share list \<Rightarrow> 'c chain_call"
  chain_checkGaps :: "'c chain_call"

definition deliver_gaps ::
  "(string \<Rightarrow> buffer) \<Rightarrow> (gap list \<Rightarrow> gap list) \<Rightarrow> peer \<Rightarrow> gap list list \<Rightarrow> peer" where
  "deliver_gaps sha256 shuffle p gss = foldl (handleGapsFound sha256 shuffle) p gss"

definition handleSharereply ::
  "(string \<Rightarrow> buffer) \<Rightarrow> (gap list \<Rightarrow> gap list) \<Rightarrow> 'c chain_ops \<Rightarrow> peer \<Rightarrow> 'c \<Rightarrow> sharereply
     \<Rightarrow> (error + unit) \<times> peer \<times> 'c" where
  "handleSharereply sha256 shuffle ops p c reply =
     (if result reply \<noteq> 0
      then (case chain_checkGaps ops c of
              (e, c1, gss) \<Rightarrow>
                ((case e of Some x \<Rightarrow> Inl x | None \<Rightarrow> Inr ()),
                 deliver_gaps sha256 shuffle p gss, c1))
      else
        let shares = filter (\<lambda>s. validity s \<and> \<not> chain_has ops c (hash s)) (reply_shares reply)
        in case (if length shares = 0 then chain_fix ops c else (None, c, [])) of
             (Some x, c1, gss1) \<Rightarrow> (Inl x, deliver_gaps sha256 shuffle p gss1, c1)
           | (None, c1, gss1) \<Rightarrow>
               (case chain_add ops shares c1 of
                  (Some x, c2, gss2) \<Rightarrow>
                    (Inl x, deliver_gaps sha256 shuffle (deliver_gaps sha256 shuffle p gss1) gss2, c2)
                | (None, c2, gss2) \<Rightarrow>
                    (let p2 = deliver_gaps sha256 shuffle (deliver_gaps sha256 shuffle p gss1) gss2
                     in (Inr (),
                         p2\<lparr> pendingShareRequests :=
                               set_delete (bignum_toString16 (reply_id reply))
                                 (pendingShareRequests p2) \<rparr>,
                         c2))))"

text \<open>
  A gap whose key has a leading zero byte: the SHA-256 digest of
  \<open>3b7c...2211-594\<close> is \<open>00b13e6d...442d\<close>. A coordinator with one peer, and a chain
  whose methods do nothing.
\<close>

definition zero_key_gap :: gap where
  "zero_key_gap = \<lparr> descendent = ''3b7c1a6f0e5d4c2b9a8877665544332211ffeeddccbbaa998877665544332211'',
     descendentHeight = 20000, gap_length = 594 \<rparr>"

definition zero_key_digest :: buffer where
  "zero_key_digest =
     [0x00, 0xb1, 0x3e, 0x6d, 0xf3, 0xe9, 0x6a, 0x26, 0x62, 0x6a, 0x91, 0x2c, 0xf4, 0xa4, 0xb8, 0x2b,
      0x32, 0x94, 0x03, 0x8a, 0xb8, 0x9f, 0x52, 0xf6, 0x74, 0xb8, 0x57, 0x01, 0xfc, 0xf8, 0x44, 0x2d]"

definition one_peer :: peer where
  "one_peer = \<lparr> pendingShareRequests = [],
     peers = [\<lparr> tag = ''10.0.0.1:9333'', isJs2PoolPeer = False \<rparr>], sent = [] \<rparr>"

definition idle_chain :: "unit chain_ops" where
  "idle_chain = \<lparr> chain_has = (\<lambda>c h. False), chain_fix = (\<lambda>c. (None, c, [])),
     chain_add = (\<lambda>shares c. (None, c, [])), chain_checkGaps = (\<lambda>c. (None, c, [])) \<rparr>"

definition zero_key_sha256 :: "string \<Rightarrow> buffer" where
  "zero_key_sha256 s = zero_key_digest"

definition zero_key_reply :: sharereply where
  "zero_key_reply = \<lparr> reply_id =
       313162803060369853009876356091753516699050339011621465140130645572773757997,
     result = 0,
     reply_shares = [valid_share ''c4'' 19999 ''c3''] \<rparr>"


section \<open>The invariant of the share-chain store\<close>

lemma chain_inv_empty: "chain_inv empty_chain"
  by (simp add: chain_inv_def empty_chain_def)

lemma chain_inv_fields [simp]:
  "chain_inv (c\<lparr> events := ev \<rparr>) = chain_inv c"
  "chain_inv (c\<lparr> newest := nw \<rparr>) = chain_inv c"
  "chain_inv (c\<lparr> oldest := ol \<rparr>) = chain_inv c"
  by (simp_all add: chain_inv_def)

lemma chain_inv_trigger [simp]: "chain_inv (trigger e c) = chain_inv c"
  by (simp add: trigger_def)

lemma chain_inv_newest_set [simp]: "chain_inv (newest_set s c) = chain_inv c"
  by (simp add: newest_set_def)

lemma except_by_subset: "set (except_by eq xs ys) \<subseteq> set xs"
  by (simp add: except_by_def)

lemma except_by_hashes:
  "hash ` set (except_by same_hash xs ys) = hash ` set xs - hash ` set ys"
  by (auto simp: except_by_def list_ex_iff same_hash_def)

lemma except_by_distinct:
  "distinct (map hash xs) \<Longrightarrow> distinct (map hash (except_by same_hash xs ys))"
  by (simp add: except_by_def distinct_map_filter)

lemma chain_invI:
  assumes "\<And>k l. absheightIndexer c k = Some l \<Longrightarrow> distinct (map hash l)"
    and "\<And>k l s. absheightIndexer c k = Some l \<Longrightarrow> s \<in> set l \<Longrightarrow> validity s \<and> absheight s = k"
    and "\<And>h k. hashIndexer c h = Some k \<Longrightarrow> \<exists>l. absheightIndexer c k = Some l \<and> h \<in> hash ` set l"
  shows "chain_inv c"
  using assms unfolding chain_inv_def by blast

lemma chain_inv_distinct:
  "chain_inv c \<Longrightarrow> absheightIndexer c k = Some l \<Longrightarrow> distinct (map hash l)"
  unfolding chain_inv_def by blast

lemma chain_inv_share:
  "chain_inv c \<Longrightarrow> absheightIndexer c k = Some l \<Longrightarrow> s \<in> set l \<Longrightarrow> validity s \<and> absheight s = k"
  unfolding chain_inv_def by blast

lemma chain_inv_hash:
  "chain_inv c \<Longrightarrow> hashIndexer c h = Some k \<Longrightarrow> \<exists>l. absheightIndexer c k = Some l \<and> h \<in> hash ` set l"
  unfolding chain_inv_def by blast

lemma chain_inv_reorder:
  assumes inv: "chain_inv c"
    and l: "absheightIndexer c k = Some l"
    and sub: "set l' \<subseteq> set l"
    and hs: "hash ` set l' = hash ` set l"
    and d: "distinct (map hash l')"
  shows "chain_inv (c\<lparr> absheightIndexer := (absheightIndexer c)(k \<mapsto> l') \<rparr>)"
proof (rule chain_invI)
  fix k' l0
  assume "absheightIndexer (c\<lparr> absheightIndexer := (absheightIndexer c)(k \<mapsto> l') \<rparr>) k' = Some l0"
  then show "distinct (map hash l0)"
    using d chain_inv_distinct [OF inv, of k' l0] by (cases "k' = k") simp_all
next
  fix k' l0 s
  assume a: "absheightIndexer (c\<lparr> absheightIndexer := (absheightIndexer c)(k \<mapsto> l') \<rparr>) k' = Some l0"
    and s: "s \<in> set l0"
  show "validity s \<and> absheight s = k'"
  proof (cases "k' = k")
    case True
    with a s sub have "s \<in> set l" by auto
    with chain_inv_share [OF inv l] True show ?thesis by simp
  next
    case False
    with a s chain_inv_share [OF inv, of k' l0 s] show ?thesis by simp
  qed
next
  fix h k'
  assume "hashIndexer (c\<lparr> absheightIndexer := (absheightIndexer c)(k \<mapsto> l') \<rparr>) h = Some k'"
  then have "hashIndexer c h = Some k'" by simp
  from chain_inv_hash [OF inv this] obtain l0
    where l0: "absheightIndexer c k' = Some l0" "h \<in> hash ` set l0" by blast
  show "\<exists>l0. absheightIndexer (c\<lparr> absheightIndexer := (absheightIndexer c)(k \<mapsto> l') \<rparr>) k' = Some l0
          \<and> h \<in> hash ` set l0"
  proof (cases "k' = k")
    case True
    with l0 l hs show ?thesis by simp
  next
    case False
    with l0 show ?thesis by simp
  qed
qed

lemma chain_inv_push:
  assumes inv: "chain_inv c"
    and l: "(case absheightIndexer c (absheight s) of None \<Rightarrow> [] | Some l \<Rightarrow> l) = l0"
    and v: "validity s"
    and fresh: "hash s \<notin> hash ` set l0"
  shows "chain_inv (c\<lparr> absheightIndexer := (absheightIndexer c)(absheight s \<mapsto> l0 @ [s]),
                       hashIndexer := (hashIndexer c)(hash s \<mapsto> absheight s) \<rparr>)"
    (is "chain_inv ?c'")
proof (rule chain_invI)
  fix k l1
  assume a: "absheightIndexer ?c' k = Some l1"
  show "distinct (map hash l1)"
  proof (cases "k = absheight s")
    case True
    have "distinct (map hash l0)"
      using l chain_inv_distinct [OF inv, of "absheight s"] by (auto split: option.splits)
    with a True fresh show ?thesis by auto
  next
    case False
    with a chain_inv_distinct [OF inv, of k l1] show ?thesis by simp
  qed
next
  fix k l1 t
  assume a: "absheightIndexer ?c' k = Some l1" and t: "t \<in> set l1"
  show "validity t \<and> absheight t = k"
  proof (cases "k = absheight s")
    case True
    with a t have "t = s \<or> t \<in> set l0" by auto
    then show ?thesis
    proof
      assume "t = s" with v True show ?thesis by simp
    next
      assume "t \<in> set l0"
      with l True chain_inv_share [OF inv, of k _ t] show ?thesis
        by (auto split: option.splits)
    qed
  next
    case False
    with a t chain_inv_share [OF inv, of k l1 t] show ?thesis by simp
  qed
next
  fix h k
  assume a: "hashIndexer ?c' h = Some k"
  show "\<exists>l1. absheightIndexer ?c' k = Some l1 \<and> h \<in> hash ` set l1"
  proof (cases "h = hash s")
    case True
    with a show ?thesis by auto
  next
    case False
    with a have "hashIndexer c h = Some k" by simp
    from chain_inv_hash [OF inv this] obtain l1
      where l1: "absheightIndexer c k = Some l1" "h \<in> hash ` set l1" by blast
    show ?thesis
    proof (cases "k = absheight s")
      case True
      with l1 l show ?thesis by auto
    next
      case False
      with l1 show ?thesis by simp
    qed
  qed
qed

lemma chain_inv_cleanDeprecations:
  assumes inv: "chain_inv c"
  shows "chain_inv (cleanDeprecations c)"
proof (cases "newest c")
  case None
  with inv show ?thesis by (simp add: cleanDeprecations_def)
next
  case (Some n)
  note n = this
  show ?thesis
  proof (cases "oldest c")
    case None
    with n inv show ?thesis by (simp add: cleanDeprecations_def)
  next
    case (Some ol)
    note ol = this
    show ?thesis
    proof (cases "absheightIndexer c (absheight ol)")
      case None
      with n ol inv show ?thesis by (simp add: cleanDeprecations_def)
    next
      case (Some ds)
      note ds = this
      show ?thesis
      proof (cases "absheight n - absheight ol < MAX_CHAIN_LENGTH \<or> ds = []")
        case True
        with n ol ds inv show ?thesis
          by (auto simp: cleanDeprecations_def split: list.splits)
      next
        case False
        let ?c' = "c\<lparr> absheightIndexer := (absheightIndexer c)(absheight ol := None),
                       hashIndexer := (\<lambda>h. if h \<in> hash ` set ds then None else hashIndexer c h) \<rparr>"
        from False n ol ds have eq: "cleanDeprecations c = ?c'"
          by (auto simp: cleanDeprecations_def split: list.splits)
        have "chain_inv ?c'"
        proof (rule chain_invI)
          fix k l
          assume "absheightIndexer ?c' k = Some l"
          then show "distinct (map hash l)"
            using chain_inv_distinct [OF inv, of k l] by (simp split: if_splits)
        next
          fix k l s
          assume "absheightIndexer ?c' k = Some l" "s \<in> set l"
          then show "validity s \<and> absheight s = k"
            using chain_inv_share [OF inv, of k l s] by (simp split: if_splits)
        next
          fix h k
          assume a: "hashIndexer ?c' h = Some k"
          then have h: "h \<notin> hash ` set ds" and "hashIndexer c h = Some k"
            by (simp_all split: if_splits)
          from chain_inv_hash [OF inv this(2)] obtain l
            where l: "absheightIndexer c k = Some l" "h \<in> hash ` set l" by blast
          with h ds have "k \<noteq> absheight ol" by auto
          with l show "\<exists>l. absheightIndexer ?c' k = Some l \<and> h \<in> hash ` set l" by simp
        qed
        with eq show ?thesis by simp
      qed
    qed
  qed
qed


lemma singleOrDefault_Some:
  "singleOrDefault p xs = Inr (Some x) \<Longrightarrow> x \<in> set xs \<and> p x"
proof -
  assume a: "singleOrDefault p xs = Inr (Some x)"
  then have "filter p xs = [x]"
    by (auto simp: singleOrDefault_def split: list.splits)
  then have "x \<in> set (filter p xs)" by simp
  then show ?thesis by simp
qed

lemma singleOrDefault_distinct:
  assumes "distinct (map f xs)"
  shows "\<exists>r. singleOrDefault (\<lambda>t. f t = v) xs = Inr r"
proof -
  have "length (filter (\<lambda>t. f t = v) xs) \<le> 1"
    using assms
  proof (induction xs)
    case Nil
    then show ?case by simp
  next
    case (Cons x xs)
    show ?case
    proof (cases "f x = v")
      case True
      from Cons.prems have "f x \<notin> f ` set xs" by simp
      with True have "\<forall>t \<in> set xs. f t \<noteq> v" by blast
      then have "filter (\<lambda>t. f t = v) xs = []"
        by (simp add: filter_empty_conv)
      with True show ?thesis by simp
    next
      case False
      with Cons show ?thesis by simp
    qed
  qed
  then show ?thesis
    by (auto simp: singleOrDefault_def split: list.splits)
qed

lemma chain_inv_promote:
  assumes inv: "chain_inv c"
    and l: "absheightIndexer c k = Some l"
    and v: "v \<in> set l"
  shows "chain_inv (c\<lparr> absheightIndexer :=
            (absheightIndexer c)(k \<mapsto> v # except_by same_hash l [v]) \<rparr>)"
proof (rule chain_inv_reorder [OF inv l])
  show "set (v # except_by same_hash l [v]) \<subseteq> set l"
    using v except_by_subset [of same_hash l "[v]"] by auto
  show "hash ` set (v # except_by same_hash l [v]) = hash ` set l"
    using v by (auto simp: except_by_hashes)
  show "distinct (map hash (v # except_by same_hash l [v]))"
    using chain_inv_distinct [OF inv l]
    by (simp add: except_by_distinct except_by_hashes)
qed

lemma absheightIndexer_trigger [simp]:
  "absheightIndexer (trigger e c) = absheightIndexer c"
  by (simp add: trigger_def)

lemma chain_inv_append_newer:
  assumes inv: "chain_inv c0"
  shows "chain_inv (snd (append_newer c0 s))"
proof -
  define c where "c = cleanDeprecations (newest_set s c0)"
  have invc: "chain_inv c"
    unfolding c_def using inv by (simp add: chain_inv_cleanDeprecations)
  show ?thesis
  proof (cases "absheightIndexer c (absheight s - 1)")
    case None
    with invc show ?thesis by (simp add: append_newer_def c_def [symmetric])
  next
    case (Some prev)
    note prev = this
    show ?thesis
    proof (cases "singleOrDefault (\<lambda>t. hash t = previousShareHash s) prev")
      case (Inl e)
      with prev invc show ?thesis by (simp add: append_newer_def c_def [symmetric])
    next
      case (Inr r)
      show ?thesis
      proof (cases r)
        case None
        with Inr prev invc show ?thesis by (simp add: append_newer_def c_def [symmetric])
      next
        case (Some verified)
        with Inr have "verified \<in> set prev" by (auto dest: singleOrDefault_Some)
        define orphans where "orphans = except_by same_hash prev [verified]"
        from chain_inv_promote [OF invc prev \<open>verified \<in> set prev\<close>]
        have "chain_inv (c\<lparr> absheightIndexer :=
            (absheightIndexer c)(absheight s - 1 \<mapsto> verified # orphans) \<rparr>)"
          by (simp add: orphans_def)
        moreover have "chain_inv (trigger e c\<lparr> absheightIndexer := m \<rparr>)
            = chain_inv (c\<lparr> absheightIndexer := m \<rparr>)" for e m
          by (simp add: trigger_def chain_inv_def)
        ultimately show ?thesis
          using Some Inr prev invc
          by (auto simp: append_newer_def c_def [symmetric] Let_def orphans_def [symmetric])
      qed
    qed
  qed
qed

lemma snd_append_older_cases:
  "snd (append_older c s shares) = c
   \<or> snd (append_older c s shares) = trigger (DeadArrived s) c
   \<or> (\<exists>c1. (c1 = c \<or> (\<exists>e. c1 = trigger e c)) \<and>
         snd (append_older c s shares) =
           c1\<lparr> absheightIndexer :=
                 (absheightIndexer c1)(absheight s \<mapsto> s # except_by same_hash shares [s]) \<rparr>)"
proof -
  define orphans where "orphans = except_by same_hash shares [s]"
  show ?thesis
    unfolding orphans_def [symmetric]
    by (auto simp: append_older_def Let_def orphans_def [symmetric]
          split: option.splits list.splits)
qed

lemma chain_inv_append_older:
  assumes inv: "chain_inv c"
    and l: "absheightIndexer c (absheight s) = Some shares"
    and s: "s \<in> set shares"
  shows "chain_inv (snd (append_older c s shares))"
proof -
  from chain_inv_promote [OF inv l s]
  have p: "chain_inv (c\<lparr> absheightIndexer :=
            (absheightIndexer c)(absheight s \<mapsto> s # except_by same_hash shares [s]) \<rparr>)" .
  have t: "chain_inv (trigger e c\<lparr> absheightIndexer := m \<rparr>)
            = chain_inv (c\<lparr> absheightIndexer := m \<rparr>)" for e m
    by (simp add: trigger_def chain_inv_def)
  from snd_append_older_cases [of c s shares] show ?thesis
  proof (elim disjE exE conjE)
    assume "snd (append_older c s shares) = c"
    with inv show ?thesis by simp
  next
    assume "snd (append_older c s shares) = trigger (DeadArrived s) c"
    with inv show ?thesis by simp
  next
    fix c1
    assume "c1 = c" and "snd (append_older c s shares) =
           c1\<lparr> absheightIndexer :=
                 (absheightIndexer c1)(absheight s \<mapsto> s # except_by same_hash shares [s]) \<rparr>"
    with p show ?thesis by simp
  next
    fix c1 e
    assume "c1 = trigger e c" and "snd (append_older c s shares) =
           c1\<lparr> absheightIndexer :=
                 (absheightIndexer c1)(absheight s \<mapsto> s # except_by same_hash shares [s]) \<rparr>"
    with p t show ?thesis by simp
  qed
qed

lemma append_newer_returns:
  assumes inv: "chain_inv c0"
  shows "\<exists>r. fst (append_newer c0 s) = Inr r"
proof -
  define c where "c = cleanDeprecations (newest_set s c0)"
  have invc: "chain_inv c"
    unfolding c_def using inv by (simp add: chain_inv_cleanDeprecations)
  show ?thesis
  proof (cases "absheightIndexer c (absheight s - 1)")
    case None
    then show ?thesis by (simp add: append_newer_def c_def [symmetric])
  next
    case (Some prev)
    from singleOrDefault_distinct [OF chain_inv_distinct [OF invc Some], of "previousShareHash s"]
    obtain r where "singleOrDefault (\<lambda>t. hash t = previousShareHash s) prev = Inr r" by blast
    with Some show ?thesis
      by (cases r) (simp_all add: append_newer_def c_def [symmetric] Let_def)
  qed
qed

lemma append_older_returns: "\<exists>r. fst (append_older c s l) = Inr r"
  by (simp add: append_older_def Let_def split: option.splits list.splits)

lemma append_share_inv_and_returns:
  assumes inv: "chain_inv c"
  shows "chain_inv (snd (append_share c s)) \<and> (\<exists>r. fst (append_share c s) = Inr r)"
proof (cases "validity s")
  case False
  with inv show ?thesis by (simp add: append_share_def)
next
  case True
  define shares0 where "shares0 = (case absheightIndexer c (absheight s) of None \<Rightarrow> [] | Some l \<Rightarrow> l)"
  show ?thesis
  proof (cases "list_ex (\<lambda>t. hash t = hash s) shares0")
    case True
    have "chain_inv (c\<lparr> absheightIndexer := (absheightIndexer c)(absheight s \<mapsto> []) \<rparr>)"
      if "absheightIndexer c (absheight s) = None"
      using that True by (simp add: shares0_def)
    with True inv \<open>validity s\<close> show ?thesis
      by (simp add: append_share_def Let_def shares0_def [symmetric] split: option.splits)
  next
    case False
    then have fresh: "hash s \<notin> hash ` set shares0"
      by (auto simp: list_ex_iff)
    define c2 where "c2 = c\<lparr> absheightIndexer := (absheightIndexer c)(absheight s \<mapsto> shares0 @ [s]),
                       hashIndexer := (hashIndexer c)(hash s \<mapsto> absheight s) \<rparr>"
    have inv2: "chain_inv c2"
      unfolding c2_def
      by (rule chain_inv_push [OF inv _ \<open>validity s\<close> fresh]) (simp add: shares0_def)
    define c3 where "c3 = (case oldest c2 of
                         Some ol \<Rightarrow> if absheight s < absheight ol then c2\<lparr> oldest := Some s \<rparr> else c2
                       | None \<Rightarrow> c2)"
    have inv3: "chain_inv c3"
      unfolding c3_def using inv2 by (simp split: option.splits)
    have l3: "absheightIndexer c3 (absheight s) = Some (shares0 @ [s])"
      unfolding c3_def c2_def by (simp split: option.splits)
    have c2_alt: "c2 = (case absheightIndexer c (absheight s) of
                    None \<Rightarrow> c\<lparr> absheightIndexer := (absheightIndexer c)(absheight s \<mapsto> []) \<rparr>
                  | Some _ \<Rightarrow> c)\<lparr> absheightIndexer :=
                     (absheightIndexer (case absheightIndexer c (absheight s) of
                    None \<Rightarrow> c\<lparr> absheightIndexer := (absheightIndexer c)(absheight s \<mapsto> []) \<rparr>
                  | Some _ \<Rightarrow> c))(absheight s \<mapsto> shares0 @ [s]),
                   hashIndexer := (hashIndexer (case absheightIndexer c (absheight s) of
                    None \<Rightarrow> c\<lparr> absheightIndexer := (absheightIndexer c)(absheight s \<mapsto> []) \<rparr>
                  | Some _ \<Rightarrow> c))(hash s \<mapsto> absheight s) \<rparr>"
      unfolding c2_def by (simp split: option.splits)
    have eq: "append_share c s =
      (case newest c3 of
                  Some n \<Rightarrow>
                    if absheight s > absheight n then append_newer c3 s
                    else if absheight s = absheight n
                      then (Inr (Some True), trigger (CandidateArrived s) c3)
                    else append_older c3 s (shares0 @ [s])
                | None \<Rightarrow>
                    (let c4 = newest_set s c3;
                         c5 = (case oldest c4 of None \<Rightarrow> c4\<lparr> oldest := Some s \<rparr> | Some _ \<Rightarrow> c4)
                     in (Inr (Some True), c5)))"
      using \<open>validity s\<close> False
      unfolding append_share_def shares0_def [symmetric] Let_def c2_alt [symmetric] c3_def [symmetric]
      by simp
    show ?thesis
    proof (cases "newest c3")
      case None
      with eq inv3 show ?thesis by (simp add: Let_def split: option.splits)
    next
      case (Some n)
      have "chain_inv (snd (append_older c3 s (shares0 @ [s])))"
        by (rule chain_inv_append_older [OF inv3 l3]) simp
      moreover from append_newer_returns [OF inv3, of s]
      obtain r1 where "fst (append_newer c3 s) = Inr r1" by blast
      moreover from append_older_returns [of c3 s "shares0 @ [s]"]
      obtain r2 where "fst (append_older c3 s (shares0 @ [s])) = Inr r2" by blast
      ultimately show ?thesis
        using Some eq inv3 by (simp add: chain_inv_append_newer)
    qed
  qed
qed


lemma chain_inv_append_share:
  "chain_inv c \<Longrightarrow> chain_inv (snd (append_share c s))"
  using append_share_inv_and_returns by blast

text \<open>
  On a store reached by \<open>append\<close> calls, \<open>append\<close> returns: \<open>singleOrDefault\<close> finds at
  most one share with the parent's hash and does not raise.
\<close>

lemma append_share_returns:
  "chain_inv c \<Longrightarrow> \<exists>r. fst (append_share c s) = Inr r"
  using append_share_inv_and_returns by blast

lemma chain_inv_appends: "chain_inv c \<Longrightarrow> chain_inv (appends c ss)"
  unfolding appends_def
  by (induction ss arbitrary: c) (simp_all add: chain_inv_append_share)

lemma append_share_returns_after_appends:
  "\<exists>r. fst (append_share (appends empty_chain ss) s) = Inr r"
  by (rule append_share_returns [OF chain_inv_appends [OF chain_inv_empty]])

section \<open>Evaluation of the store on concrete shares\<close>

lemmas chain_eval = append_share_def append_newer_def append_older_def cleanDeprecations_def
  newest_set_def trigger_def one_gap_def empty_chain_def Let_def singleOrDefault_def same_hash_def
  except_by_def MAX_CHAIN_LENGTH_def BASE_CHAIN_LENGTH_def appends_def valid_share_def
  invalid_share_def

section \<open>Duplicates\<close>

text \<open>
  C8. Appending a share whose hash is already in the list at its height returns false and
  changes nothing: both indexes, newest, oldest and the event log are the same store.
\<close>

theorem append_duplicate_idempotent:
  assumes "absheightIndexer c (absheight s) = Some l"
    and "hash s \<in> hash ` set l"
  shows "append_share c s = (Inr (Some False), c)"
proof (cases "validity s")
  case False
  then show ?thesis by (simp add: append_share_def)
next
  case True
  from assms(2) have "list_ex (\<lambda>t. hash t = hash s) l"
    by (auto simp: list_ex_iff)
  with True assms(1) show ?thesis
    by (simp add: append_share_def Let_def)
qed

theorem append_duplicate_idempotent_witness:
  "absheightIndexer dead_store (absheight (valid_share ''a'' 100 ''z'')) = Some [valid_share ''a'' 100 ''z'']
   \<and> hash (valid_share ''a'' 100 ''z'') \<in> hash ` set [valid_share ''a'' 100 ''z'']
   \<and> append_share dead_store (valid_share ''a'' 100 ''z'') = (Inr (Some False), dead_store)"
proof -
  have l: "absheightIndexer dead_store (absheight (valid_share ''a'' 100 ''z''))
      = Some [valid_share ''a'' 100 ''z'']"
    by (simp add: dead_store_def chain_eval)
  have h: "hash (valid_share ''a'' 100 ''z'') \<in> hash ` set [valid_share ''a'' 100 ''z'']"
    by simp
  from append_duplicate_idempotent [OF l h] l h show ?thesis by simp
qed

section \<open>Dead shares\<close>

text \<open>
  C2 (as amended). A valid share D below newest, not yet in the list at its height, arriving
  where that list already holds a share and the list one height above is non-empty with no
  share naming D as its parent: \<open>append\<close> triggers \<open>deadArrived\<close> and returns false, and D
  stays where the insertion before the branch put it, last in the list at its height and
  under its hash in \<open>hashIndexer\<close>; \<open>oldest\<close> becomes D when D is lower.
\<close>


theorem dead_share_stays_indexed:
  assumes "validity D"
    and "newest c = Some n" and "absheight D < absheight n"
    and "absheightIndexer c (absheight D) = Some l" and "l \<noteq> []"
    and "\<not> list_ex (\<lambda>t. hash t = hash D) l"
    and "absheightIndexer c (absheight D + 1) = Some nl" and "nl \<noteq> []"
    and "\<not> list_ex (\<lambda>t. previousShareHash t = hash D) nl"
  shows "append_share c D =
     (Inr (Some False),
      c\<lparr> absheightIndexer := (absheightIndexer c)(absheight D \<mapsto> l @ [D]),
         hashIndexer := (hashIndexer c)(hash D \<mapsto> absheight D),
         oldest := (case oldest c of
                      None \<Rightarrow> None
                    | Some ol \<Rightarrow> if absheight D < absheight ol then Some D else Some ol),
         events := events c @ [DeadArrived D] \<rparr>)"
proof -
  from assms(5) have len: "\<not> length (l @ [D]) < 2"
    by (cases l) simp_all
  from assms(8) obtain x xs where nl: "nl = x # xs" by (cases nl) auto
  show ?thesis
    using assms(1-4,6,7,9) len nl
    by (cases "oldest c")
       (simp_all add: append_share_def append_older_def Let_def trigger_def)
qed

text \<open>
  The claim as the specification has it, with D left out of both indexes, fails on the
  specification's own scenario: newest at height 200, A at 100, B at 101 with parent A, then D
  at 100.
\<close>

theorem dead_share_absent_counterexample:
  "validity (valid_share ''d'' 100 ''z'')
   \<and> newest dead_store = Some (valid_share ''n'' 200 ''m'')
   \<and> absheightIndexer dead_store 100 = Some [valid_share ''a'' 100 ''z'']
   \<and> absheightIndexer dead_store 101 = Some [valid_share ''b'' 101 ''a'']
   \<and> fst (append_share dead_store (valid_share ''d'' 100 ''z'')) = Inr (Some False)
   \<and> hashIndexer (snd (append_share dead_store (valid_share ''d'' 100 ''z''))) ''d'' = Some 100
   \<and> absheightIndexer (snd (append_share dead_store (valid_share ''d'' 100 ''z''))) 100
       = Some [valid_share ''a'' 100 ''z'', valid_share ''d'' 100 ''z'']"
  by (simp add: dead_store_def chain_eval)


theorem dead_share_stays_indexed_witness:
  "append_share dead_store (valid_share ''d'' 100 ''z'') =
     (Inr (Some False),
      dead_store\<lparr> absheightIndexer := (absheightIndexer dead_store)
           (100 \<mapsto> [valid_share ''a'' 100 ''z'', valid_share ''d'' 100 ''z'']),
         hashIndexer := (hashIndexer dead_store)(''d'' \<mapsto> 100),
         oldest := Some (valid_share ''a'' 100 ''z''),
         events := events dead_store @ [DeadArrived (valid_share ''d'' 100 ''z'')] \<rparr>)"
proof -
  let ?D = "valid_share ''d'' 100 ''z''"
  have 1: "validity ?D" by (simp add: valid_share_def)
  have 2: "newest dead_store = Some (valid_share ''n'' 200 ''m'')"
    by (simp add: dead_store_def chain_eval)
  have 3: "absheight ?D < absheight (valid_share ''n'' 200 ''m'')"
    by (simp add: valid_share_def)
  have 4: "absheightIndexer dead_store (absheight ?D) = Some [valid_share ''a'' 100 ''z'']"
    by (simp add: dead_store_def chain_eval)
  have 5: "[valid_share ''a'' 100 ''z''] \<noteq> []" by simp
  have 6: "\<not> list_ex (\<lambda>t. hash t = hash ?D) [valid_share ''a'' 100 ''z'']"
    by (simp add: valid_share_def)
  have 7: "absheightIndexer dead_store (absheight ?D + 1) = Some [valid_share ''b'' 101 ''a'']"
    by (simp add: dead_store_def chain_eval)
  have 8: "[valid_share ''b'' 101 ''a''] \<noteq> []" by simp
  have 9: "\<not> list_ex (\<lambda>t. previousShareHash t = hash ?D) [valid_share ''b'' 101 ''a'']"
    by (simp add: valid_share_def)
  have o: "oldest dead_store = Some (valid_share ''a'' 100 ''z'')"
    by (simp add: dead_store_def chain_eval)
  have h: "absheight ?D = 100" "hash ?D = ''d''" "absheight (valid_share ''a'' 100 ''z'') = 100"
    by (simp_all add: valid_share_def)
  from dead_share_stays_indexed [OF 1 2 3 4 5 6 7 8 9] show ?thesis
    by (simp add: o h)
qed


section \<open>Invalid shares\<close>

text \<open>
  C9. After any sequence of \<open>append\<close> calls on the empty store, every share in a height list
  is valid, every entry of \<open>hashIndexer\<close> is the hash of a valid share stored at the height it
  maps to, and \<open>append\<close> of an invalid share returns false and leaves the store as it was.
\<close>

theorem invalid_shares_never_admitted:
  "(\<forall>k l t. absheightIndexer (appends empty_chain ss) k = Some l \<longrightarrow> t \<in> set l \<longrightarrow> validity t)
   \<and> (\<forall>h k. hashIndexer (appends empty_chain ss) h = Some k \<longrightarrow>
         (\<exists>l t. absheightIndexer (appends empty_chain ss) k = Some l
                 \<and> t \<in> set l \<and> hash t = h \<and> validity t))
   \<and> (\<not> validity s \<longrightarrow>
         append_share (appends empty_chain ss) s = (Inr (Some False), appends empty_chain ss))"
proof -
  have inv: "chain_inv (appends empty_chain ss)"
    by (rule chain_inv_appends [OF chain_inv_empty])
  have 1: "validity t"
    if "absheightIndexer (appends empty_chain ss) k = Some l" "t \<in> set l" for k l t
    using chain_inv_share [OF inv that] by simp
  have 2: "\<exists>l t. absheightIndexer (appends empty_chain ss) k = Some l
                 \<and> t \<in> set l \<and> hash t = h \<and> validity t"
    if "hashIndexer (appends empty_chain ss) h = Some k" for h k
  proof -
    from chain_inv_hash [OF inv that] obtain l
      where l: "absheightIndexer (appends empty_chain ss) k = Some l" "h \<in> hash ` set l"
      by blast
    then obtain t where t: "t \<in> set l" "hash t = h" by auto
    with l(1) 1 show ?thesis by blast
  qed
  have 3: "append_share c s = (Inr (Some False), c)" if "\<not> validity s" for c
    using that by (simp add: append_share_def)
  from 1 2 3 show ?thesis by blast
qed

text \<open>An invalid share and a valid one at the same height: only the valid one is stored.\<close>

theorem invalid_shares_never_admitted_witness:
  "absheightIndexer (appends empty_chain [invalid_share ''x'' 5 ''w'', valid_share ''a'' 5 ''z'']) 5
       = Some [valid_share ''a'' 5 ''z'']
   \<and> validity (valid_share ''a'' 5 ''z'')
   \<and> hashIndexer (appends empty_chain [invalid_share ''x'' 5 ''w'', valid_share ''a'' 5 ''z'']) ''a''
       = Some 5
   \<and> hashIndexer (appends empty_chain [invalid_share ''x'' 5 ''w'', valid_share ''a'' 5 ''z'']) ''x''
       = None
   \<and> \<not> validity (invalid_share ''x'' 5 ''w'')
   \<and> append_share (appends empty_chain [invalid_share ''x'' 5 ''w'', valid_share ''a'' 5 ''z''])
        (invalid_share ''x'' 5 ''w'')
       = (Inr (Some False),
          appends empty_chain [invalid_share ''x'' 5 ''w'', valid_share ''a'' 5 ''z''])"
proof -
  let ?ss = "[invalid_share ''x'' 5 ''w'', valid_share ''a'' 5 ''z'']"
  have l: "absheightIndexer (appends empty_chain ?ss) 5 = Some [valid_share ''a'' 5 ''z'']"
    by (simp add: chain_eval)
  have m: "valid_share ''a'' 5 ''z'' \<in> set [valid_share ''a'' 5 ''z'']" by simp
  have h: "hashIndexer (appends empty_chain ?ss) ''a'' = Some 5"
    "hashIndexer (appends empty_chain ?ss) ''x'' = None"
    by (simp_all add: chain_eval)
  have n: "\<not> validity (invalid_share ''x'' 5 ''w'')"
    by (simp add: invalid_share_def)
  from invalid_shares_never_admitted [of ?ss "invalid_share ''x'' 5 ''w''"]
  have "validity (valid_share ''a'' 5 ''z'')"
    and "append_share (appends empty_chain ?ss) (invalid_share ''x'' 5 ''w'')
       = (Inr (Some False), appends empty_chain ?ss)"
    using l m n by blast+
  with l h n show ?thesis by blast
qed

section \<open>Lookup by hash\<close>

text \<open>
  C10. \<open>get\<close> of a hash that \<open>hashIndexer\<close> maps to a height returns the first share of the
  list at that height, \<open>null\<close> when the hash is absent or the height has no list or an empty
  one; so for the hash of a share stored behind the first one it returns a share with another
  hash. \<open>get\<close> of a height with no shares returns \<open>null\<close> too.
\<close>

theorem get_returns_first_at_height:
  "(hashIndexer c h = None \<longrightarrow> get c (ByHash h) = None)
   \<and> (hashIndexer c h = Some k \<longrightarrow>
        get c (ByHash h) =
          (case absheightIndexer c k of None \<Rightarrow> None | Some [] \<Rightarrow> None | Some (x # _) \<Rightarrow> Some x))
   \<and> (hashIndexer c h = Some k \<longrightarrow> absheightIndexer c k = Some (x # xs) \<longrightarrow> hash x \<noteq> h \<longrightarrow>
        (\<exists>r. get c (ByHash h) = Some r \<and> hash r \<noteq> h))
   \<and> (absheightIndexer c k = None \<or> absheightIndexer c k = Some [] \<longrightarrow>
        get c (ByHeight k) = None)"
  by (auto simp: get_def split: option.splits list.splits)

text \<open>
  The store of the dead-share scenario after D arrived: D is second at height 100, and
  \<open>get\<close> of D's hash returns A.
\<close>

theorem get_returns_first_at_height_witness:
  "hashIndexer (snd (append_share dead_store (valid_share ''d'' 100 ''z''))) ''d'' = Some 100
   \<and> absheightIndexer (snd (append_share dead_store (valid_share ''d'' 100 ''z''))) 100
       = Some [valid_share ''a'' 100 ''z'', valid_share ''d'' 100 ''z'']
   \<and> hash (valid_share ''a'' 100 ''z'') \<noteq> ''d''
   \<and> get (snd (append_share dead_store (valid_share ''d'' 100 ''z''))) (ByHash ''d'')
       = Some (valid_share ''a'' 100 ''z'')
   \<and> hashIndexer dead_store ''q'' = None
   \<and> get dead_store (ByHash ''q'') = None
   \<and> absheightIndexer dead_store 7 = None
   \<and> get dead_store (ByHeight 7) = None"
proof -
  let ?c = "snd (append_share dead_store (valid_share ''d'' 100 ''z''))"
  have a: "hashIndexer ?c ''d'' = Some 100"
    and b: "absheightIndexer ?c 100 = Some [valid_share ''a'' 100 ''z'', valid_share ''d'' 100 ''z'']"
    and c: "hash (valid_share ''a'' 100 ''z'') \<noteq> ''d''"
    and d: "hashIndexer dead_store ''q'' = None"
    and e: "absheightIndexer dead_store 7 = None"
    by (simp_all add: dead_store_def chain_eval)
  from get_returns_first_at_height [of ?c "''d''" 100] a b
  have 1: "get ?c (ByHash ''d'') = Some (valid_share ''a'' 100 ''z'')" by simp
  from get_returns_first_at_height [of dead_store "''q''" 7] d e
  have 2: "get dead_store (ByHash ''q'') = None" "get dead_store (ByHeight 7) = None"
    by simp_all
  from a b c d e 1 2 show ?thesis by blast
qed

text \<open>
  On a store reached by \<open>append\<close> calls the list at the height of a known hash is there and
  is not empty, so \<open>get\<close> of a known hash returns a share.
\<close>

lemma get_known_hash:
  assumes "chain_inv c" and "hashIndexer c h = Some k"
  shows "\<exists>x xs. absheightIndexer c k = Some (x # xs) \<and> get c (ByHash h) = Some x"
proof -
  from chain_inv_hash [OF assms] obtain l
    where l: "absheightIndexer c k = Some l" "h \<in> hash ` set l" by blast
  then obtain x xs where "l = x # xs" by (cases l) auto
  with l(1) assms(2) show ?thesis by (simp add: get_def)
qed

section \<open>The lazy walk\<close>

text \<open>
  On a store reached by \<open>append\<close> calls, from a hash whose height is not \<open>0\<close>, \<open>subchain\<close>
  is the walk over the first shares of consecutive heights, and it yields at least one share
  when asked for one.
\<close>

lemma subchain_walk_index0:
  assumes "chain_inv c"
  shows "subchain_walk c k step n = index0_walk c k step n"
proof (induction n arbitrary: k)
  case 0
  show ?case by simp
next
  case (Suc n)
  show ?case
  proof (cases "absheightIndexer c k")
    case None
    then show ?thesis by simp
  next
    case (Some l)
    show ?thesis
    proof (cases l)
      case Nil
      with Some show ?thesis by simp
    next
      case (Cons x xs)
      with Some chain_inv_share [OF assms, of k l x] have "absheight x = k" by simp
      with Some Cons Suc.IH show ?thesis by simp
    qed
  qed
qed

lemma subchain_nonzero_height:
  assumes inv: "chain_inv c"
    and h: "hashIndexer c h = Some k"
    and k: "k \<noteq> 0"
  shows "subchain c h n dir = index0_walk c k (case dir of Backward \<Rightarrow> - 1 | Forward \<Rightarrow> 1) n"
    and "0 < n \<Longrightarrow> subchain c h n dir \<noteq> []"
proof -
  show eq: "subchain c h n dir = index0_walk c k (case dir of Backward \<Rightarrow> - 1 | Forward \<Rightarrow> 1) n"
    using h k by (simp add: subchain_def subchain_walk_index0 [OF inv])
  assume "0 < n"
  then obtain m where n: "n = Suc m" by (cases n) auto
  from chain_inv_hash [OF inv h] obtain l
    where l: "absheightIndexer c k = Some l" "h \<in> hash ` set l" by blast
  then obtain x xs where "l = x # xs" by (cases l) auto
  with l eq n show "subchain c h n dir \<noteq> []" by simp
qed

text \<open>
  C7. The guard \<open>if (!absheight) return\<close> also holds for a share stored at height \<open>0\<close>:
  its hash is in \<open>hashIndexer\<close>, the list at its height holds it, \<open>get\<close> finds it, and
  \<open>subchain\<close> from it yields nothing in either direction.
\<close>

theorem subchain_height_zero_yields_nothing:
  "hashIndexer zero_store ''a'' = Some 0
   \<and> absheightIndexer zero_store 0 = Some [valid_share ''a'' 0 ''z'']
   \<and> subchain zero_store ''a'' 1 Forward = []
   \<and> subchain zero_store ''a'' 1 Backward = []
   \<and> get zero_store (ByHash ''a'') = Some (valid_share ''a'' 0 ''z'')"
  by (simp add: zero_store_def chain_eval subchain_def get_def)

section \<open>The sliding window\<close>

text \<open>
  \<open>append\<close> assigns \<open>oldest\<close> only a share of lower height: the height of \<open>oldest\<close> never
  goes up, whatever is evicted.
\<close>

lemma oldest_append_newer [simp]: "oldest (snd (append_newer c s)) = oldest c"
proof -
  have 1: "oldest (cleanDeprecations c') = oldest c'" for c'
    by (simp add: cleanDeprecations_def split: option.splits list.splits)
  show ?thesis
    by (simp add: append_newer_def Let_def 1 newest_set_def trigger_def
          split: option.splits sum.splits)
qed

lemma oldest_append_older [simp]: "oldest (snd (append_older c s l)) = oldest c"
  by (simp add: append_older_def Let_def trigger_def split: option.splits list.splits)

lemma oldest_never_advances:
  assumes "oldest c = Some ol"
  shows "\<exists>ol'. oldest (snd (append_share c s)) = Some ol' \<and> absheight ol' \<le> absheight ol"
  using assms
  by (auto simp: append_share_def Let_def trigger_def newest_set_def
        split: option.splits)

lemma oldest_never_advances_appends:
  assumes "oldest c = Some ol"
  shows "\<exists>ol'. oldest (appends c ss) = Some ol' \<and> absheight ol' \<le> absheight ol"
  using assms
proof (induction ss arbitrary: c ol)
  case Nil
  then show ?case by (simp add: appends_def)
next
  case (Cons s ss)
  from oldest_never_advances [OF Cons.prems, of s] obtain ol1
    where o1: "oldest (snd (append_share c s)) = Some ol1" "absheight ol1 \<le> absheight ol"
    by blast
  from Cons.IH [OF o1(1)] obtain ol'
    where "oldest (appends (snd (append_share c s)) ss) = Some ol'" "absheight ol' \<le> absheight ol1"
    by blast
  with o1(2) show ?case by (auto simp: appends_def)
qed

text \<open>
  C1. Shares at heights 1, 2, 17281 and 17283, appended in this order: the third append
  evicts height 1, \<open>oldest\<close> still is the evicted share, and the fourth finds no list at the
  height of \<open>oldest\<close> and evicts nothing. The span is then 17282, above \<open>MAX_CHAIN_LENGTH\<close>,
  and the share at height 2, below the window that ends at 17283, is in both indexes.
\<close>

theorem window_not_maintained:
  "MAX_CHAIN_LENGTH = 17280
   \<and> newest window_store = Some (valid_share ''d'' 17283 ''x'')
   \<and> oldest window_store = Some (valid_share ''a'' 1 ''z'')
   \<and> absheight (valid_share ''d'' 17283 ''x'') - absheight (valid_share ''a'' 1 ''z'') = 17282
   \<and> absheightIndexer window_store 1 = None
   \<and> hashIndexer window_store ''a'' = None
   \<and> absheightIndexer window_store 2 = Some [valid_share ''b'' 2 ''a'']
   \<and> hashIndexer window_store ''b'' = Some 2"
  by (simp add: window_store_def chain_eval)



section \<open>The set of remote transaction hashes\<close>

text \<open>On a set, the eviction loop keeps the last ten entries.\<close>

lemma evict_oldest_drop:
  "distinct xs \<Longrightarrow> evict_oldest xs = drop (length xs - 10) xs"
proof (induction xs rule: evict_oldest.induct)
  case (1 xs)
  show ?case
  proof (cases "length xs > 10")
    case False
    then show ?thesis by (simp add: evict_oldest.simps)
  next
    case True
    then obtain v vs where xs: "xs = v # vs" by (cases xs) auto
    with "1.prems" have d: "distinct vs" and nv: "v \<notin> set vs" by auto
    from nv have del: "set_delete v xs = vs"
      by (simp add: set_delete_def xs)
    from "1.IH" [OF True xs] d del have "evict_oldest vs = drop (length vs - 10) vs"
      by simp
    moreover from True xs have "length xs - 10 = Suc (length vs - 10)" by simp
    ultimately show ?thesis
      using True xs del by (subst evict_oldest.simps) simp
  qed
qed

lemma set_add_all_length:
  "length (foldl (\<lambda>s h. set_add h s) xs hs) \<le> length xs + length hs"
proof (induction hs arbitrary: xs)
  case Nil
  show ?case by simp
next
  case (Cons h hs)
  have "length (set_add h xs) \<le> Suc (length xs)" by (simp add: set_add_def)
  with Cons [of "set_add h xs"] show ?case by simp
qed

lemma set_add_all_distinct:
  "distinct xs \<Longrightarrow> distinct (foldl (\<lambda>s h. set_add h s) xs hs)"
  by (induction hs arbitrary: xs) (simp_all add: set_add_def)

lemma set_add_all_set:
  "set (foldl (\<lambda>s h. set_add h s) xs hs) = set xs \<union> set hs"
  by (induction hs arbitrary: xs) (auto simp: set_add_def)

lemma set_add_all_fresh:
  "distinct (xs @ hs) \<Longrightarrow> foldl (\<lambda>s h. set_add h s) xs hs = xs @ hs"
proof (induction hs arbitrary: xs)
  case Nil
  show ?case by simp
next
  case (Cons h hs)
  from Cons.prems have "set_add h xs = xs @ [h]" by (simp add: set_add_def)
  moreover from Cons.prems have "distinct ((xs @ [h]) @ hs)" by simp
  ultimately show ?case using Cons.IH [of "xs @ [h]"] by simp
qed

lemma have_tx_small:
  assumes "length (remoteTxHashs n) \<le> 10"
  shows "remoteTxHashs (handleHave_tx hs n) = foldl (\<lambda>s h. set_add h s) (remoteTxHashs n) hs"
  using assms
  by (simp add: handleHave_tx_def Let_def node_trigger_def evict_oldest.simps)

lemma have_tx_one_by_one:
  assumes "remoteTxHashs n = []"
  shows "distinct hs \<Longrightarrow> length hs \<le> 11 \<Longrightarrow>
    remoteTxHashs (foldl (\<lambda>n h. handleHave_tx [h] n) n hs) = hs"
proof (induction hs rule: rev_induct)
  case Nil
  with assms show ?case by simp
next
  case (snoc h hs)
  then have r: "remoteTxHashs (foldl (\<lambda>n h. handleHave_tx [h] n) n hs) = hs"
    and len: "length hs \<le> 10" and d: "distinct (hs @ [h])"
    by simp_all
  from have_tx_small [of "foldl (\<lambda>n h. handleHave_tx [h] n) n hs" "[h]"] r len
  have "remoteTxHashs (handleHave_tx [h] (foldl (\<lambda>n h. handleHave_tx [h] n) n hs))
      = foldl (\<lambda>s h. set_add h s) hs [h]" by simp
  also have "\<dots> = hs @ [h]" by (rule set_add_all_fresh [OF d])
  finally show ?case by simp
qed

text \<open>
  The handler keeps the set a set, so the set is one after every sequence of messages on a
  connection that starts with an empty one.
\<close>

lemma have_tx_distinct:
  "distinct (remoteTxHashs n) \<Longrightarrow> distinct (remoteTxHashs (handleHave_tx hs n))"
  by (simp add: handleHave_tx_def Let_def node_trigger_def evict_oldest_drop set_add_all_distinct)

lemma have_tx_all_distinct:
  "distinct (remoteTxHashs n) \<Longrightarrow> distinct (remoteTxHashs (handleHave_tx_all msgs n))"
  unfolding handleHave_tx_all_def
  by (induction msgs arbitrary: n) (simp_all add: have_tx_distinct)

lemma remoteTxHashs_connected_node: "remoteTxHashs connected_node = []"
  by (simp add: connected_node_def installSocket_def initSocket_def close_def new_node_def)

lemma distinct_eleven_hashes: "distinct eleven_hashes" "length eleven_hashes = 11"
  by (simp_all add: eleven_hashes_def)

text \<open>
  C3 (as amended). \<open>handleHave_tx\<close> first evicts, oldest first, until at most 10 entries
  are left, and then inserts the hashes of the message: the set it leaves is the last ten
  entries of the set it found, followed by the new hashes in order, so it holds at most 10
  entries more than the message has hashes, and can hold more than 10.
\<close>

theorem have_tx_evicts_before_inserting:
  assumes "distinct (remoteTxHashs n)"
  shows "remoteTxHashs (handleHave_tx hs n) =
           foldl (\<lambda>s h. set_add h s)
             (drop (length (remoteTxHashs n) - 10) (remoteTxHashs n)) hs
         \<and> length (remoteTxHashs (handleHave_tx hs n)) \<le> 10 + length hs
         \<and> distinct (remoteTxHashs (handleHave_tx hs n))
         \<and> node_events (handleHave_tx hs n) = node_events n @ [HaveTx hs]"
proof -
  let ?kept = "drop (length (remoteTxHashs n) - 10) (remoteTxHashs n)"
  have eq: "remoteTxHashs (handleHave_tx hs n) = foldl (\<lambda>s h. set_add h s) ?kept hs"
    using assms by (simp add: handleHave_tx_def Let_def node_trigger_def evict_oldest_drop)
  have "length ?kept \<le> 10" by simp
  with set_add_all_length [of ?kept hs]
  have len: "length (foldl (\<lambda>s h. set_add h s) ?kept hs) \<le> 10 + length hs" by simp
  from assms have "distinct ?kept" by simp
  then have d: "distinct (foldl (\<lambda>s h. set_add h s) ?kept hs)"
    by (rule set_add_all_distinct)
  have ev: "node_events (handleHave_tx hs n) = node_events n @ [HaveTx hs]"
    by (simp add: handleHave_tx_def Let_def node_trigger_def)
  from eq len d ev show ?thesis by simp
qed

text \<open>
  The claim as the specification has it, with at most 10 entries after every message and the
  11th insertion evicting the oldest, fails on a fresh connection: after eleven messages of
  one hash each, and after one message of eleven hashes, all eleven hashes are in the set,
  the first one included.
\<close>

theorem remoteTxHashs_exceeds_ten_counterexample:
  "remoteTxHashs (handleHave_tx_all eleven_messages connected_node) = eleven_hashes
   \<and> remoteTxHashs (handleHave_tx eleven_hashes connected_node) = eleven_hashes
   \<and> length eleven_hashes = 11"
proof -
  have m: "eleven_messages = map (\<lambda>h. [h]) eleven_hashes"
    by (simp add: eleven_messages_def eleven_hashes_def)
  have "remoteTxHashs (foldl (\<lambda>n h. handleHave_tx [h] n) connected_node eleven_hashes)
      = eleven_hashes"
    by (rule have_tx_one_by_one [OF remoteTxHashs_connected_node])
       (simp_all add: distinct_eleven_hashes)
  then have 1: "remoteTxHashs (handleHave_tx_all eleven_messages connected_node) = eleven_hashes"
    by (simp add: handleHave_tx_all_def m foldl_map)
  have 2: "remoteTxHashs (handleHave_tx eleven_hashes connected_node) = eleven_hashes"
    using have_tx_small [of connected_node eleven_hashes]
      set_add_all_fresh [of "[]" eleven_hashes]
    by (simp add: remoteTxHashs_connected_node distinct_eleven_hashes)
  from 1 2 show ?thesis by (simp add: distinct_eleven_hashes)
qed

text \<open>With eleven entries in the set, the next message evicts the oldest entry.\<close>

theorem have_tx_evicts_before_inserting_witness:
  "distinct (remoteTxHashs (handleHave_tx eleven_hashes connected_node))
   \<and> remoteTxHashs (handleHave_tx [''t12'', ''t13''] (handleHave_tx eleven_hashes connected_node))
      = [''t02'', ''t03'', ''t04'', ''t05'', ''t06'', ''t07'', ''t08'', ''t09'', ''t10'', ''t11'',
         ''t12'', ''t13'']"
proof -
  have r: "remoteTxHashs (handleHave_tx eleven_hashes connected_node) = eleven_hashes"
    using have_tx_small [of connected_node eleven_hashes]
      set_add_all_fresh [of "[]" eleven_hashes]
    by (simp add: remoteTxHashs_connected_node distinct_eleven_hashes)
  have d: "distinct (remoteTxHashs (handleHave_tx eleven_hashes connected_node))"
    unfolding r by (rule distinct_eleven_hashes)
  from have_tx_evicts_before_inserting [OF d, of "[''t12'', ''t13'']"]
  have "remoteTxHashs (handleHave_tx [''t12'', ''t13''] (handleHave_tx eleven_hashes connected_node))
      = foldl (\<lambda>s h. set_add h s) (drop (length eleven_hashes - 10) eleven_hashes) [''t12'', ''t13'']"
    unfolding r by simp
  also have "\<dots> = [''t02'', ''t03'', ''t04'', ''t05'', ''t06'', ''t07'', ''t08'', ''t09'',
         ''t10'', ''t11'', ''t12'', ''t13'']"
    by (simp add: eleven_hashes_def set_add_def)
  finally show ?thesis using d by simp
qed

section \<open>Closing a connection\<close>

lemma close_with_socket:
  "socket n = Some s \<Longrightarrow>
     close n = n\<lparr> socket := Some (s\<lparr> end_calls := end_calls s + 1, listeners := [] \<rparr>),
                  node_events := node_events n @ [End] \<rparr>"
  by (simp add: close_def node_trigger_def)

text \<open>
  C4 (as amended). On a connection with a socket, every call of \<open>close\<close> ends the socket,
  leaves it without listeners and triggers \<open>end\<close>: \<open>k\<close> calls trigger it \<open>k\<close> times.
\<close>

theorem close_emits_End_on_every_call:
  assumes "socket n = Some s"
  shows "node_events ((close ^^ k) n) = node_events n @ replicate k End
         \<and> socket ((close ^^ k) n)
             = Some (s\<lparr> end_calls := end_calls s + k,
                        listeners := (if k = 0 then listeners s else []) \<rparr>)
         \<and> remoteTxHashs ((close ^^ k) n) = remoteTxHashs n"
proof (induction k)
  case 0
  with assms show ?case by simp
next
  case (Suc k)
  let ?m = "(close ^^ k) n"
  let ?s = "s\<lparr> end_calls := end_calls s + k, listeners := (if k = 0 then listeners s else []) \<rparr>"
  from Suc have ev: "node_events ?m = node_events n @ replicate k End"
    and so: "socket ?m = Some ?s" and tx: "remoteTxHashs ?m = remoteTxHashs n"
    by simp_all
  have "(close ^^ Suc k) n = close ?m" by simp
  also have "\<dots> = ?m\<lparr> socket := Some (?s\<lparr> end_calls := end_calls ?s + 1, listeners := [] \<rparr>),
                  node_events := node_events ?m @ [End] \<rparr>"
    by (rule close_with_socket [OF so])
  finally have eq: "(close ^^ Suc k) n =
      ?m\<lparr> socket := Some (?s\<lparr> end_calls := end_calls ?s + 1, listeners := [] \<rparr>),
                  node_events := node_events ?m @ [End] \<rparr>" .
  have r: "replicate k End @ [End] = replicate (Suc k) End"
    by (simp add: replicate_append_same)
  show ?case
    unfolding eq using ev tx r by simp
qed

text \<open>
  The claim as the specification has it, with \<open>End\<close> triggered once however often \<open>close\<close>
  is called, fails at the second call.
\<close>

theorem close_twice_counterexample:
  "socket connected_node = Some \<lparr> end_calls = 0, listeners = [''timeout'', ''end'', ''error''] \<rparr>
   \<and> node_events connected_node = []
   \<and> node_events (close connected_node) = [End]
   \<and> node_events (close (close connected_node)) = [End, End]
   \<and> socket (close (close connected_node)) = Some \<lparr> end_calls = 2, listeners = [] \<rparr>"
  by (simp add: connected_node_def installSocket_def initSocket_def close_def new_node_def
        fresh_socket_def node_trigger_def)

theorem close_emits_End_on_every_call_witness:
  "socket connected_node = Some \<lparr> end_calls = 0, listeners = [''timeout'', ''end'', ''error''] \<rparr>
   \<and> node_events ((close ^^ 3) connected_node) = [End, End, End]
   \<and> socket ((close ^^ 3) connected_node) = Some \<lparr> end_calls = 3, listeners = [] \<rparr>"
proof -
  have s: "socket connected_node
      = Some \<lparr> end_calls = 0, listeners = [''timeout'', ''end'', ''error''] \<rparr>"
    and e: "node_events connected_node = []"
    by (simp_all add: connected_node_def installSocket_def initSocket_def close_def new_node_def
        fresh_socket_def)
  from close_emits_End_on_every_call [OF s, of 3] s e show ?thesis
    by (simp add: numeral_3_eq_3)
qed

section \<open>A frame with a bad checksum\<close>

text \<open>
  C5 (as amended). On a connection with a socket, when the header is read, its first 8
  bytes are the magic number, the payload is read and the first 32 bits of its digest
  differ from the stored checksum, the method triggers \<open>badPeer\<close> with \<open>Bad checksum\<close>,
  closes the connection, and raises: its promise is rejected with the assertion error, no
  handler runs and no next frame is scheduled.
\<close>


theorem bad_checksum_closes_then_raises:
  assumes "readFlowingBytesAsync (socket n) PROTOCOL_HEAD_LENGTH preBuffer chunks
             = Resolved (data, lopped, chunks1)"
    and "take 8 data = magic"
    and "readUInt32LE data 20 = Inr len"
    and "readUInt32LE data 24 = Inr checksum"
    and "readFlowingBytesAsync (socket n) len lopped chunks1 = Resolved (payload, remain, chunks2)"
    and "readUInt32LE (sha256d payload) 0 = Inr digest32"
    and "digest32 \<noteq> checksum"
    and "socket n = Some s"
  shows "beginReceivingMessagesAsync magic sha256d msgHandlers n preBuffer chunks =
           (Rejected AssertionError,
            n\<lparr> socket := Some (s\<lparr> end_calls := end_calls s + 1, listeners := [] \<rparr>),
               node_events := node_events n @ [BadPeer ''Bad checksum'', End] \<rparr>)"
  using assms
  by (simp add: beginReceivingMessagesAsync_def Let_def close_def node_trigger_def)

lemmas frame_eval = beginReceivingMessagesAsync_def readFlowingBytesAsync_def
  PROTOCOL_HEAD_LENGTH_def readUInt32LE_def bad_checksum_frame_def test_magic_def
  sha256d_of_empty_def sha256d_empty_payload_def connected_node_def installSocket_def
  initSocket_def close_def new_node_def fresh_socket_def node_trigger_def Let_def

text \<open>
  The claim as the specification has it, with the handler returning normally, fails on a
  \<open>ping\<close> frame of length 0 whose stored checksum is 0.
\<close>

theorem bad_checksum_raises_counterexample:
  "readUInt32LE bad_checksum_frame 24 = Inr 0
   \<and> readUInt32LE sha256d_of_empty 0 = Inr 3806393949
   \<and> beginReceivingMessagesAsync test_magic sha256d_empty_payload Map.empty
        connected_node None [bad_checksum_frame]
       = (Rejected AssertionError,
          \<lparr> socket = Some \<lparr> end_calls = 1, listeners = [] \<rparr>,
            remoteTxHashs = [],
            node_events = [BadPeer ''Bad checksum'', End] \<rparr>)"
  by (simp add: frame_eval)

theorem bad_checksum_closes_then_raises_witness:
  "beginReceivingMessagesAsync test_magic sha256d_empty_payload Map.empty
        connected_node None [bad_checksum_frame]
       = (Rejected AssertionError,
          connected_node\<lparr> socket := Some \<lparr> end_calls = 1, listeners = [] \<rparr>,
            node_events := [BadPeer ''Bad checksum'', End] \<rparr>)"
proof -
  let ?s = "\<lparr> end_calls = 0, listeners = [''timeout'', ''end'', ''error''] \<rparr>"
  have s: "socket connected_node = Some ?s"
    and e: "node_events connected_node = []"
    by (simp_all add: connected_node_def installSocket_def initSocket_def close_def new_node_def
        fresh_socket_def)
  have 1: "readFlowingBytesAsync (socket connected_node) PROTOCOL_HEAD_LENGTH None
             [bad_checksum_frame] = Resolved (bad_checksum_frame, None, [])"
    by (simp add: s readFlowingBytesAsync_def PROTOCOL_HEAD_LENGTH_def bad_checksum_frame_def
          test_magic_def)
  have 2: "take 8 bad_checksum_frame = test_magic"
    by (simp add: bad_checksum_frame_def test_magic_def)
  have 3: "readUInt32LE bad_checksum_frame 20 = Inr 0"
    and 4: "readUInt32LE bad_checksum_frame 24 = Inr 0"
    by (simp_all add: readUInt32LE_def bad_checksum_frame_def test_magic_def)
  have 5: "readFlowingBytesAsync (socket connected_node) 0 None [] = Resolved ([], None, [])"
    by (simp add: readFlowingBytesAsync_def)
  have 6: "readUInt32LE (sha256d_empty_payload []) 0 = Inr 3806393949"
    by (simp add: readUInt32LE_def sha256d_empty_payload_def sha256d_of_empty_def)
  have 7: "(3806393949::nat) \<noteq> 0" by simp
  from bad_checksum_closes_then_raises
    [where sha256d = sha256d_empty_payload and msgHandlers = Map.empty, OF 1 2 3 4 5 6 7 s]
  show ?thesis by (simp add: e)
qed



text \<open>
  The magic number is tested first: a frame that has it wrong is answered with
  \<open>Bad magic number\<close>, whatever its checksum.
\<close>

lemma bad_magic_closes_then_raises:
  assumes "readFlowingBytesAsync (socket n) PROTOCOL_HEAD_LENGTH preBuffer chunks
             = Resolved (data, lopped, chunks1)"
    and "take 8 data \<noteq> magic"
  shows "beginReceivingMessagesAsync magic sha256d msgHandlers n preBuffer chunks =
           (Rejected AssertionError, close (node_trigger (BadPeer ''Bad magic number'') n))"
  using assms by (simp add: beginReceivingMessagesAsync_def)

section \<open>Share requests and their replies\<close>

lemma hex_value_digit_char:
  assumes "d < 16"
  shows "hex_value (digit_char d) = Some d"
proof -
  from assms have "d = 0 \<or> d = 1 \<or> d = 2 \<or> d = 3 \<or> d = 4 \<or> d = 5 \<or> d = 6 \<or> d = 7
      \<or> d = 8 \<or> d = 9 \<or> d = 10 \<or> d = 11 \<or> d = 12 \<or> d = 13 \<or> d = 14 \<or> d = 15"
    by arith
  then show ?thesis
    by (elim disjE) (simp_all add: hex_value_def digit_char_def)
qed

lemma hex_of_bytes_Cons:
  "hex_of_bytes (b # bs) =
     digit_char (unat b div 16) # digit_char (unat b mod 16) # hex_of_bytes bs"
  by (simp add: hex_of_bytes_def)

lemma length_hex_of_bytes: "length (hex_of_bytes bs) = 2 * length bs"
  by (induction bs) (simp_all add: hex_of_bytes_def)

lemma unat_byte_less: "unat (b :: byte) < 256"
  by (rule order_less_le_trans [OF unsigned_less]) simp

lemma hex_acc_hex_of_bytes:
  "hex_acc a (hex_of_bytes bs) = foldl (\<lambda>a b. 256 * a + unat b) a bs"
proof (induction bs arbitrary: a)
  case Nil
  show ?case by (simp add: hex_of_bytes_def)
next
  case (Cons b bs)
  have hi: "unat b div 16 < 16" using unat_byte_less [of b] by simp
  have lo: "unat b mod 16 < 16" by simp
  have e: "16 * (16 * a + unat b div 16) + unat b mod 16 = 256 * a + unat b"
    by simp
  have "hex_acc a (hex_of_bytes (b # bs))
      = hex_acc (16 * (16 * a + unat b div 16) + unat b mod 16) (hex_of_bytes bs)"
    by (simp add: hex_of_bytes_Cons hex_value_digit_char [OF hi] hex_value_digit_char [OF lo])
  also have "\<dots> = foldl (\<lambda>a b. 256 * a + unat b) (256 * a + unat b) bs"
    unfolding e by (rule Cons.IH)
  finally show ?case by simp
qed

lemma bytes_of_bignum_zero: "bytes_of_bignum 0 = []"
  by (simp add: bytes_of_bignum.simps)

lemma bytes_of_bignum_step:
  assumes "a \<noteq> 0"
  shows "bytes_of_bignum (256 * a + unat (b :: byte)) = bytes_of_bignum a @ [b]"
proof -
  have "(256 * a + unat b) div 256 = a" using unat_byte_less [of b] by simp
  moreover have "(256 * a + unat b) mod 256 = unat b" using unat_byte_less [of b] by simp
  moreover have "256 * a + unat b \<noteq> 0" using assms by simp
  ultimately show ?thesis
    by (subst bytes_of_bignum.simps) simp
qed

lemma bytes_of_bignum_byte:
  "bytes_of_bignum (unat (b :: byte)) = (if b = 0 then [] else [b])"
proof (cases "b = 0")
  case True
  then show ?thesis by (simp add: bytes_of_bignum_zero)
next
  case False
  then have nz: "unat b \<noteq> 0" by (simp add: unat_eq_0)
  have "unat b div 256 = 0" "unat b mod 256 = unat b"
    using unat_byte_less [of b] by simp_all
  with nz False show ?thesis
    by (subst bytes_of_bignum.simps) (simp add: bytes_of_bignum_zero)
qed

lemma bytes_of_bignum_foldl:
  assumes "a \<noteq> 0"
  shows "bytes_of_bignum (foldl (\<lambda>a b. 256 * a + unat b) a bs) = bytes_of_bignum a @ bs"
  using assms
proof (induction bs arbitrary: a)
  case Nil
  show ?case by simp
next
  case (Cons b bs)
  from Cons.prems have "256 * a + unat b \<noteq> 0" by simp
  from Cons.IH [OF this] Cons.prems show ?case
    by (simp add: bytes_of_bignum_step)
qed

lemma length_bytes_of_bignum_foldl:
  "length (bytes_of_bignum (foldl (\<lambda>a b. 256 * a + unat b) a (bs :: buffer)))
     \<le> length (bytes_of_bignum a) + length bs"
proof (induction bs arbitrary: a)
  case Nil
  show ?case by simp
next
  case (Cons b bs)
  have "length (bytes_of_bignum (256 * a + unat b)) \<le> Suc (length (bytes_of_bignum a))"
  proof (cases "a = 0")
    case True
    then show ?thesis by (simp add: bytes_of_bignum_byte bytes_of_bignum_zero)
  next
    case False
    then show ?thesis by (simp add: bytes_of_bignum_step)
  qed
  with Cons.IH [of "256 * a + unat b"] show ?case by simp
qed

text \<open>
  The key of a request comes back from the big integer exactly when the digest does not
  start with a zero byte.
\<close>

lemma requestId_round_trip:
  assumes "bs \<noteq> []"
  shows "bignum_toString16 (bignum_of_hex (hex_of_bytes bs)) = hex_of_bytes bs \<longleftrightarrow> hd bs \<noteq> 0"
proof -
  from assms obtain b rest where bs: "bs = b # rest" by (cases bs) auto
  let ?v = "foldl (\<lambda>a b. 256 * a + unat b) 0 bs"
  have v: "bignum_of_hex (hex_of_bytes bs) = ?v"
    by (simp add: bignum_of_hex_def hex_acc_hex_of_bytes)
  show ?thesis
  proof (cases "b = 0")
    case False
    then have nz: "unat b \<noteq> 0" by (simp add: unat_eq_0)
    have "?v = foldl (\<lambda>a b. 256 * a + unat b) (unat b) rest" by (simp add: bs)
    then have bv: "bytes_of_bignum ?v = bs"
      using bytes_of_bignum_foldl [OF nz, of rest] False
      by (simp add: bytes_of_bignum_byte bs)
    have "?v \<noteq> 0"
    proof
      assume "?v = 0"
      with bv have "bytes_of_bignum 0 = bs" by simp
      with bs show False by (simp add: bytes_of_bignum_zero)
    qed
    with bv have "bignum_toString16 ?v = hex_of_bytes bs"
      by (simp add: bignum_toString16_def)
    moreover from False have "hd bs \<noteq> 0" by (simp add: bs)
    ultimately show ?thesis unfolding v by simp
  next
    case True
    have "?v = foldl (\<lambda>a b. 256 * a + unat b) 0 rest" by (simp add: bs True)
    then have "length (bytes_of_bignum ?v) \<le> length rest"
      using length_bytes_of_bignum_foldl [of 0 rest] by (simp add: bytes_of_bignum_zero)
    then have "length (bignum_toString16 ?v) < length (hex_of_bytes bs)"
      by (simp add: bignum_toString16_def length_hex_of_bytes bs)
    then have "bignum_toString16 ?v \<noteq> hex_of_bytes bs" by auto
    moreover from True have "hd bs = 0" by (simp add: bs)
    ultimately show ?thesis unfolding v by simp
  qed
qed

lemma set_delete_absent: "k \<notin> set (set_delete k xs)"
  by (simp add: set_delete_def)

text \<open>
  A reply with result 0, during which the chain raises nothing, removes from
  \<open>pendingShareRequests\<close> the string \<open>toString(16)\<close> gives for its id.
\<close>

lemma handleSharereply_deletes:
  assumes "result reply = 0"
    and "fst (handleSharereply sha256 shuffle ops p c reply) = Inr ()"
  shows "bignum_toString16 (reply_id reply)
           \<notin> set (pendingShareRequests (fst (snd (handleSharereply sha256 shuffle ops p c reply))))"
  using assms
  by (auto simp: handleSharereply_def Let_def set_delete_absent
        split: prod.splits option.splits if_splits)

text \<open>
  So the reply to the request for a gap removes the key of that gap when the digest starts
  with a non-zero byte and the chain raises nothing.
\<close>

lemma nonzero_first_byte_key_is_removed:
  assumes "sha256 (descendent g @ ''-'' @ string_of_number (gap_length g)) = b # rest"
    and "b \<noteq> 0"
    and "result reply = 0"
    and "reply_id reply = bignum_of_hex (requestId_of sha256 g)"
    and "fst (handleSharereply sha256 shuffle ops p c reply) = Inr ()"
  shows "requestId_of sha256 g
           \<notin> set (pendingShareRequests (fst (snd (handleSharereply sha256 shuffle ops p c reply))))"
proof -
  from assms(1,2) requestId_round_trip [of "b # rest"]
  have "bignum_toString16 (bignum_of_hex (requestId_of sha256 g)) = requestId_of sha256 g"
    by (simp add: requestId_of_def)
  with handleSharereply_deletes [OF assms(3,5)] assms(4) show ?thesis by simp
qed

lemmas peer_eval = handleGapsFound_def request_gap_def requestId_of_def handleSharereply_def
  deliver_gaps_def set_add_def set_delete_def Let_def one_peer_def idle_chain_def
  zero_key_gap_def zero_key_sha256_def zero_key_reply_def valid_share_def

lemma zero_key_hex:
  "hex_of_bytes zero_key_digest
     = ''00b13e6df3e96a26626a912cf4a4b82b3294038ab89f52f674b85701fcf8442d''"
  by (simp add: hex_of_bytes_def zero_key_digest_def digit_char_def)

lemma zero_key_number:
  "bignum_of_hex ''00b13e6df3e96a26626a912cf4a4b82b3294038ab89f52f674b85701fcf8442d''
     = 313162803060369853009876356091753516699050339011621465140130645572773757997"
  by (simp add: bignum_of_hex_def hex_value_def)

lemma zero_key_back:
  "bignum_toString16 313162803060369853009876356091753516699050339011621465140130645572773757997
     = ''b13e6df3e96a26626a912cf4a4b82b3294038ab89f52f674b85701fcf8442d''"
  by (simp add: bignum_toString16_def bytes_of_bignum.simps hex_of_bytes_def digit_char_def)

lemma zero_key_requested:
  "handleGapsFound zero_key_sha256 id one_peer [zero_key_gap] =
     \<lparr> pendingShareRequests =
         [''00b13e6df3e96a26626a912cf4a4b82b3294038ab89f52f674b85701fcf8442d''],
       peers = [\<lparr> tag = ''10.0.0.1:9333'', isJs2PoolPeer = False \<rparr>],
       sent = [(''10.0.0.1:9333'',
                \<lparr> req_id = 313162803060369853009876356091753516699050339011621465140130645572773757997,
                  hashes = [''3b7c1a6f0e5d4c2b9a8877665544332211ffeeddccbbaa998877665544332211''],
                  parents = 79 \<rparr>)] \<rparr>"
  by (simp add: peer_eval zero_key_hex zero_key_number)

text \<open>
  C6. The gap below \<open>3b7c...2211\<close> of length 594 has a key that starts with \<open>00\<close>. With
  one peer connected, \<open>handleGapsFound\<close> records the key of 64 digits and sends the request
  with the big integer read from it. The reply with result 0 and that integer as its id
  deletes the string of 62 digits that \<open>toString(16)\<close> gives: the coordinator is as it was,
  the key still pending, and the next \<open>gapsFound\<close> for the same gap sends nothing.
\<close>

theorem zero_byte_key_is_not_removed:
  "handleSharereply zero_key_sha256 id idle_chain
       (handleGapsFound zero_key_sha256 id one_peer [zero_key_gap]) () zero_key_reply
     = (Inr (), handleGapsFound zero_key_sha256 id one_peer [zero_key_gap], ())
   \<and> pendingShareRequests (handleGapsFound zero_key_sha256 id one_peer [zero_key_gap])
       = [''00b13e6df3e96a26626a912cf4a4b82b3294038ab89f52f674b85701fcf8442d'']
   \<and> map snd (sent (handleGapsFound zero_key_sha256 id one_peer [zero_key_gap]))
       = [\<lparr> req_id = reply_id zero_key_reply,
            hashes = [''3b7c1a6f0e5d4c2b9a8877665544332211ffeeddccbbaa998877665544332211''],
            parents = 79 \<rparr>]
   \<and> bignum_toString16 (reply_id zero_key_reply)
       = ''b13e6df3e96a26626a912cf4a4b82b3294038ab89f52f674b85701fcf8442d''
   \<and> handleGapsFound zero_key_sha256 id
         (handleGapsFound zero_key_sha256 id one_peer [zero_key_gap]) [zero_key_gap]
       = handleGapsFound zero_key_sha256 id one_peer [zero_key_gap]"
  apply (simp only: zero_key_requested)
  apply (simp add: peer_eval zero_key_hex zero_key_number zero_key_back)
  done


end
